theory Spec2Isabelle
  imports Main "HOL-Library.AList" "HOL-Library.Sublist" "HOL-Library.Multiset"
begin

section \<open>Resumable state store (class StepLogger)\<close>

text \<open>
  The store keeps one JSON file per run and step in its log directory. The directory is
  modelled as an association list from file name to file content, in the order in which
  \<^verbatim>\<open>readdir\<close> reports the names; a missing name is the \<^verbatim>\<open>ENOENT\<close> case that
  \<^verbatim>\<open>safeReadFile\<close> turns into \<^verbatim>\<open>undefined\<close>. Other input/output faults, and the
  normalisation that \<^verbatim>\<open>path.join\<close> applies to ids containing path separators, are outside
  the model. A file holds either text that \<^verbatim>\<open>JSON.parse\<close> rejects (or the empty text, which
  \<^verbatim>\<open>readStep\<close> treats alike) or a record; \<^verbatim>\<open>JSON.stringify\<close> followed by
  \<^verbatim>\<open>JSON.parse\<close> is the identity on records. The ISO time stamp in \<^verbatim>\<open>updatedAt\<close> is
  represented by the number of milliseconds it denotes, which is what \<^verbatim>\<open>getAllLogs\<close>
  compares. A failure marker is \<^verbatim>\<open>number | string\<close>.
\<close>

record 'p StepLogRecord =
  stepId :: string
  index :: int
  fails :: "(int + string) list"
  updatedAt :: int
  payload :: "(string \<rightharpoonup> 'p) option"

datatype 'p file_content = Unparsable | Parsed "'p StepLogRecord"

type_synonym 'p log_dir = "(string \<times> 'p file_content) list"

record StepLogger =
  runId :: string
  persistInProductionOnly :: bool
  isProduction :: bool

record 'v RunnerState =
  currentStepId :: string
  stepIndex :: int
  completedStepIds :: "string list"
  failedStepIds :: "string list"
  statePayload :: "(string \<rightharpoonup> 'v) option"

text \<open>The constructor's defaults: persist in production only, not in production.\<close>

definition newStepLogger :: "string \<Rightarrow> bool option \<Rightarrow> bool option \<Rightarrow> StepLogger" where
  "newStepLogger rid pipo inProd =
     \<lparr>runId = rid,
      persistInProductionOnly = (case pipo of None \<Rightarrow> True | Some b \<Rightarrow> b),
      isProduction = (case inProd of None \<Rightarrow> False | Some b \<Rightarrow> b)\<rparr>"

definition shouldPersist :: "StepLogger \<Rightarrow> bool" where
  "shouldPersist lg = (if \<not> persistInProductionOnly lg then True else isProduction lg)"

definition filePrefix :: "StepLogger \<Rightarrow> string" where
  "filePrefix lg = runId lg @ ''-''"

definition buildFilePath :: "StepLogger \<Rightarrow> string \<Rightarrow> string" where
  "buildFilePath lg sid = filePrefix lg @ sid @ ''.json''"

definition safeReadFile :: "'p log_dir \<Rightarrow> string \<Rightarrow> 'p file_content option" where
  "safeReadFile d p = map_of d p"

definition safeReadDir :: "'p log_dir \<Rightarrow> string list" where
  "safeReadDir d = map fst d"

definition freshRecord :: "int \<Rightarrow> string \<Rightarrow> 'p StepLogRecord" where
  "freshRecord now sid = \<lparr>stepId = sid, index = 0, fails = [], updatedAt = now, payload = None\<rparr>"

definition readStep :: "StepLogger \<Rightarrow> int \<Rightarrow> string \<Rightarrow> 'p log_dir \<Rightarrow> 'p StepLogRecord" where
  "readStep lg now sid d =
     (case safeReadFile d (buildFilePath lg sid) of
        None \<Rightarrow> freshRecord now sid
      | Some Unparsable \<Rightarrow> freshRecord now sid
      | Some (Parsed r) \<Rightarrow> r)"

definition writeStep :: "StepLogger \<Rightarrow> 'p StepLogRecord \<Rightarrow> 'p log_dir \<Rightarrow> 'p log_dir" where
  "writeStep lg r d = AList.update (buildFilePath lg (stepId r)) (Parsed r) d"

text \<open>
  Each operation takes the clock reading \<open>now\<close> that \<^verbatim>\<open>timestamp()\<close> returns during the
  call, and the directory, and returns the directory it leaves behind.
\<close>

definition setLogForCurrentStepIndex ::
  "StepLogger \<Rightarrow> int \<Rightarrow> string \<Rightarrow> int \<Rightarrow> 'p log_dir \<Rightarrow> 'p log_dir" where
  "setLogForCurrentStepIndex lg now sid idx d =
     (if \<not> shouldPersist lg then d
      else
        let r = readStep lg now sid d;
            r1 = r\<lparr>index := idx\<rparr>;
            r2 = (if idx = 0 then r1\<lparr>fails := []\<rparr> else r1);
            r3 = r2\<lparr>updatedAt := now\<rparr>
        in writeStep lg r3 d)"

definition setLogForCurrentStepFails ::
  "StepLogger \<Rightarrow> int \<Rightarrow> string \<Rightarrow> int + string \<Rightarrow> 'p log_dir \<Rightarrow> 'p log_dir" where
  "setLogForCurrentStepFails lg now sid failureId d =
     (if \<not> shouldPersist lg then d
      else
        let r = readStep lg now sid d;
            r1 = r\<lparr>fails := fails r @ [failureId]\<rparr>;
            r2 = r1\<lparr>updatedAt := now\<rparr>
        in writeStep lg r2 d)"

definition setStepPayload ::
  "StepLogger \<Rightarrow> int \<Rightarrow> string \<Rightarrow> (string \<rightharpoonup> 'p) \<Rightarrow> 'p log_dir \<Rightarrow> 'p log_dir" where
  "setStepPayload lg now sid p d =
     (if \<not> shouldPersist lg then d
      else
        let r = readStep lg now sid d;
            r1 = r\<lparr>payload := Some ((case payload r of None \<Rightarrow> Map.empty | Some q \<Rightarrow> q) ++ p)\<rparr>;
            r2 = r1\<lparr>updatedAt := now\<rparr>
        in writeStep lg r2 d)"

definition getLogByStep :: "StepLogger \<Rightarrow> int \<Rightarrow> string \<Rightarrow> 'p log_dir \<Rightarrow> 'p StepLogRecord" where
  "getLogByStep lg now sid d = readStep lg now sid d"

definition relevantFile :: "StepLogger \<Rightarrow> string \<Rightarrow> bool" where
  "relevantFile lg file = (prefix (filePrefix lg) file \<and> suffix ''.json'' file)"

fun parseRecords :: "'p log_dir \<Rightarrow> string list \<Rightarrow> 'p StepLogRecord list" where
  "parseRecords d [] = []"
| "parseRecords d (file # files) =
     (case safeReadFile d file of
        None \<Rightarrow> parseRecords d files
      | Some Unparsable \<Rightarrow> parseRecords d files
      | Some (Parsed r) \<Rightarrow> r # parseRecords d files)"

text \<open>\<^verbatim>\<open>Array.prototype.sort\<close> is stable, as is \<^const>\<open>sort_key\<close>.\<close>

definition getAllLogs :: "StepLogger \<Rightarrow> 'p log_dir \<Rightarrow> 'p StepLogRecord list" where
  "getAllLogs lg d =
     (let files = safeReadDir d;
          relevant = filter (relevantFile lg) files;
          records = parseRecords d relevant
      in sort_key updatedAt records)"

definition collectPayload :: "'p StepLogRecord list \<Rightarrow> (string \<rightharpoonup> (string \<rightharpoonup> 'p))" where
  "collectPayload logs =
     foldl (\<lambda>m l. case payload l of None \<Rightarrow> m | Some p \<Rightarrow> m(stepId l \<mapsto> p)) Map.empty logs"

definition inferCurrentStep :: "string option \<Rightarrow> 'p StepLogRecord list \<Rightarrow> string" where
  "inferCurrentStep cur logs =
     (case cur of
        Some c \<Rightarrow> c
      | None \<Rightarrow>
          (case find (\<lambda>l. index l > 0) (rev logs) of
             Some l \<Rightarrow> stepId l
           | None \<Rightarrow> (if length logs > 0 then stepId (logs ! (length logs - 1)) else '''')))"

definition buildRunnerState ::
  "StepLogger \<Rightarrow> string option \<Rightarrow> 'p log_dir \<Rightarrow> (string \<rightharpoonup> 'p) RunnerState" where
  "buildRunnerState lg cur d =
     (let logs = getAllLogs lg d;
          completed = map stepId (filter (\<lambda>l. index l = 0) logs);
          failed = map stepId (filter (\<lambda>l. length (fails l) > 0) logs);
          pl = collectPayload logs;
          inferredCurrentStep = inferCurrentStep cur logs;
          inferredIndex =
            (case find (\<lambda>l. stepId l = inferredCurrentStep) logs of
               Some l \<Rightarrow> index l
             | None \<Rightarrow> 0)
      in \<lparr>currentStepId = inferredCurrentStep,
          stepIndex = inferredIndex,
          completedStepIds = completed,
          failedStepIds = failed,
          statePayload = Some pl\<rparr>)"

definition clearStep :: "StepLogger \<Rightarrow> string \<Rightarrow> 'p log_dir \<Rightarrow> 'p log_dir" where
  "clearStep lg sid d =
     (if \<not> shouldPersist lg then d else AList.delete (buildFilePath lg sid) d)"

definition clearAll :: "StepLogger \<Rightarrow> 'p log_dir \<Rightarrow> 'p log_dir" where
  "clearAll lg d =
     (if \<not> shouldPersist lg then d
      else foldl (\<lambda>acc file. AList.delete file acc) d (filter (relevantFile lg) (safeReadDir d)))"

text \<open>
  The file of a step holds that step's own record: true of an empty directory and kept by
  every write of a logger, since \<^verbatim>\<open>writeStep\<close> names the file after the record it writes.
\<close>

definition record_keyed :: "StepLogger \<Rightarrow> 'p log_dir \<Rightarrow> string \<Rightarrow> bool" where
  "record_keyed lg d sid =
     (case safeReadFile d (buildFilePath lg sid) of
        Some (Parsed r) \<Rightarrow> stepId r = sid
      | _ \<Rightarrow> True)"

definition no_record :: "StepLogger \<Rightarrow> 'p log_dir \<Rightarrow> string \<Rightarrow> bool" where
  "no_record lg d sid =
     (case safeReadFile d (buildFilePath lg sid) of
        Some (Parsed r) \<Rightarrow> False
      | _ \<Rightarrow> True)"

section \<open>Step runner (classes ScrapeContextImpl and ScrapeRunnerImpl)\<close>

text \<open>
  A step body or a hook is code of the caller: it reads and writes the execution context and
  whatever else it has captured, and it returns or throws. It is modelled as a function from
  the context to the thrown value, if any, and the context it leaves behind; the field
  \<open>outside\<close> of the context stands for the state outside the context that the callbacks
  share. The run identifier and the clock readings (\<^verbatim>\<open>startedAt\<close>, \<^verbatim>\<open>finishedAt\<close>,
  \<^verbatim>\<open>durationMs\<close>) are left out, and of the configuration the three keys that \<^verbatim>\<open>run\<close>
  merges are kept. An event names its step by the step's id.
\<close>

datatype run_mode = Development | Production

record RunnerConfig =
  mode :: run_mode
  delay :: int
  maxItems :: "int option"

record RunOptions =
  optMode :: "run_mode option"
  optMaxItems :: "int option"
  optDelay :: "int option"
  startStepId :: "string option"

record ('v, 'x) ScrapeContext =
  config :: RunnerConfig
  data :: "string \<rightharpoonup> 'v"
  stepState :: "string \<rightharpoonup> 'v"
  metadata :: "string \<rightharpoonup> 'v"
  outside :: 'x

record StepLifecycleEvent =
  evStep :: string
  evStepIndex :: int
  evTotalSteps :: int

record 'e StepErrorEvent = StepLifecycleEvent +
  evError :: 'e
  attempt :: int
  willRetry :: bool

type_synonym ('v, 'x, 'e) callback = "('v, 'x) ScrapeContext \<Rightarrow> 'e option \<times> ('v, 'x) ScrapeContext"

record ('v, 'x, 'e) PipelineStep =
  step_id :: string
  dependencies :: "string list option"
  run :: "('v, 'x, 'e) callback"
  beforeStep :: "(StepLifecycleEvent \<Rightarrow> ('v, 'x, 'e) callback) option"
  afterStep :: "(StepLifecycleEvent \<Rightarrow> ('v, 'x, 'e) callback) option"
  onError :: "('e StepErrorEvent \<Rightarrow> ('v, 'x, 'e) callback) option"

record ('v, 'x, 'e) RunnerLifecycle =
  lifecycleBeforeStep :: "(StepLifecycleEvent \<Rightarrow> ('v, 'x, 'e) callback) option"
  lifecycleAfterStep :: "(StepLifecycleEvent \<Rightarrow> ('v, 'x, 'e) callback) option"
  lifecycleOnError :: "('e StepErrorEvent \<Rightarrow> ('v, 'x, 'e) callback) option"

record RunResult =
  totalSteps :: int
  completedSteps :: "string list"
  failedSteps :: "string list"

text \<open>What \<^verbatim>\<open>run\<close> and \<^verbatim>\<open>resume\<close> reject with: an error of the runner, or a thrown value.\<close>

datatype 'e failure =
    MissingDependency string string
  | CircularDependency "string list"
  | StepNotFound string
  | InvalidStepIndex int
  | Thrown 'e

text \<open>
  The calls that the runner makes are recorded, in order, in a log that is carried next to
  the context. The log is not part of the program; it is what the properties about firing
  order speak of.
\<close>

datatype hook_scope = RunnerLevel | StepLevel

datatype 'e call =
    BeforeStep hook_scope StepLifecycleEvent
  | RunBody string
  | AfterStep hook_scope StepLifecycleEvent
  | OnError hook_scope "'e StepErrorEvent"

type_synonym ('v, 'x, 'e) run_state = "('v, 'x) ScrapeContext \<times> 'e call list"

definition newScrapeContext :: "RunnerConfig \<Rightarrow> 'x \<Rightarrow> ('v, 'x) ScrapeContext" where
  "newScrapeContext cfg out =
     \<lparr>config = cfg, data = Map.empty, stepState = Map.empty, metadata = Map.empty,
      outside = out\<rparr>"

definition mergeConfig :: "RunnerConfig \<Rightarrow> RunOptions \<Rightarrow> RunnerConfig" where
  "mergeConfig cfg opts =
     cfg\<lparr>mode := (case optMode opts of Some m \<Rightarrow> m | None \<Rightarrow> mode cfg),
         delay := (case optDelay opts of Some d \<Rightarrow> d | None \<Rightarrow> delay cfg),
         maxItems := (case optMaxItems opts of Some n \<Rightarrow> Some n | None \<Rightarrow> maxItems cfg)\<rparr>"

text \<open>\<^verbatim>\<open>if (hook) await hook(event)\<close>: an absent hook is skipped, a present one is logged and called.\<close>

definition fire ::
  "'e call \<Rightarrow> ('v, 'x, 'e) callback option \<Rightarrow> ('v, 'x, 'e) run_state
     \<Rightarrow> 'e option \<times> ('v, 'x, 'e) run_state" where
  "fire c h st =
     (case h of
        None \<Rightarrow> (None, st)
      | Some f \<Rightarrow> (case f (fst st) of (r, ctx') \<Rightarrow> (r, (ctx', snd st @ [c]))))"

text \<open>Sequencing of awaited calls: a thrown value skips what follows.\<close>

definition andThen ::
  "'e option \<times> 's \<Rightarrow> ('s \<Rightarrow> 'e option \<times> 's) \<Rightarrow> 'e option \<times> 's" where
  "andThen r k = (case r of (Some e, s) \<Rightarrow> (Some e, s) | (None, s) \<Rightarrow> k s)"

definition fireOnError ::
  "('v, 'x, 'e) RunnerLifecycle \<Rightarrow> ('v, 'x, 'e) PipelineStep \<Rightarrow> 'e StepErrorEvent
     \<Rightarrow> ('v, 'x, 'e) run_state \<Rightarrow> 'e option \<times> ('v, 'x, 'e) run_state" where
  "fireOnError lc step errorEvent st =
     andThen (fire (OnError RunnerLevel errorEvent)
                (map_option (\<lambda>h. h errorEvent) (lifecycleOnError lc)) st)
       (\<lambda>st1. fire (OnError StepLevel errorEvent)
                (map_option (\<lambda>h. h errorEvent) (onError step)) st1)"

definition executeStep ::
  "('v, 'x, 'e) RunnerLifecycle \<Rightarrow> ('v, 'x, 'e) PipelineStep \<Rightarrow> int \<Rightarrow> int
     \<Rightarrow> ('v, 'x, 'e) run_state \<Rightarrow> 'e option \<times> ('v, 'x, 'e) run_state" where
  "executeStep lc step stepIdx totalCount st =
     (let lifecycleEvent =
            \<lparr>evStep = step_id step, evStepIndex = stepIdx, evTotalSteps = totalCount\<rparr>
      in
      andThen (fire (BeforeStep RunnerLevel lifecycleEvent)
                 (map_option (\<lambda>h. h lifecycleEvent) (lifecycleBeforeStep lc)) st)
        (\<lambda>st1.
      andThen (fire (BeforeStep StepLevel lifecycleEvent)
                 (map_option (\<lambda>h. h lifecycleEvent) (beforeStep step)) st1)
        (\<lambda>st2.
      case fire (RunBody (step_id step)) (Some (run step)) st2 of
        (Some error, st3) \<Rightarrow>
          (let errorEvent =
                 \<lparr>evStep = step_id step, evStepIndex = stepIdx, evTotalSteps = totalCount,
                  evError = error, attempt = 1, willRetry = False\<rparr>
           in andThen (fireOnError lc step errorEvent st3) (\<lambda>st4. (Some error, st4)))
      | (None, st3) \<Rightarrow>
          andThen (fire (AfterStep RunnerLevel lifecycleEvent)
                     (map_option (\<lambda>h. h lifecycleEvent) (lifecycleAfterStep lc)) st3)
            (\<lambda>st4. fire (AfterStep StepLevel lifecycleEvent)
                     (map_option (\<lambda>h. h lifecycleEvent) (afterStep step)) st4))))"

text \<open>
  The loop of \<^verbatim>\<open>run\<close> and \<^verbatim>\<open>resume\<close> over \<^verbatim>\<open>stepsToRun\<close>. It returns the thrown value, if
  any, the state, and the local lists \<^verbatim>\<open>completedSteps\<close> and \<^verbatim>\<open>failedSteps\<close> as they are
  when the loop is left.
\<close>

record ('v, 'x, 'e) loop_exit =
  thrown :: "'e option"
  exitState :: "('v, 'x, 'e) run_state"
  completedAtExit :: "string list"
  failedAtExit :: "string list"

fun runSteps ::
  "('v, 'x, 'e) RunnerLifecycle \<Rightarrow> int \<Rightarrow> int \<Rightarrow> ('v, 'x, 'e) PipelineStep list
     \<Rightarrow> ('v, 'x, 'e) run_state \<Rightarrow> string list \<Rightarrow> string list \<Rightarrow> ('v, 'x, 'e) loop_exit" where
  "runSteps lc totalCount stepIdx [] st completed failed =
     \<lparr>thrown = None, exitState = st, completedAtExit = completed, failedAtExit = failed\<rparr>"
| "runSteps lc totalCount stepIdx (step # rest) st completed failed =
     (case executeStep lc step stepIdx totalCount st of
        (None, st1) \<Rightarrow>
          runSteps lc totalCount (stepIdx + 1) rest st1 (completed @ [step_id step]) failed
      | (Some error, st1) \<Rightarrow>
          (let failed1 = failed @ [step_id step];
               errorEvent =
                 \<lparr>evStep = step_id step, evStepIndex = stepIdx, evTotalSteps = totalCount,
                  evError = error, attempt = 1, willRetry = False\<rparr>
           in case andThen (fireOnError lc step errorEvent st1) (\<lambda>st2. (Some error, st2)) of
                (r, st2) \<Rightarrow>
                  \<lparr>thrown = r, exitState = st2, completedAtExit = completed,
                   failedAtExit = failed1\<rparr>))"

subsection \<open>Dependency resolution\<close>

text \<open>
  A JavaScript \<^verbatim>\<open>Map\<close> is an association list in insertion order: \<^verbatim>\<open>set\<close> on a present key
  replaces its value in place, on a new key it appends, which is \<^const>\<open>AList.update\<close>.
\<close>

type_synonym ('v, 'x, 'e) step_map = "(string \<times> ('v, 'x, 'e) PipelineStep) list"
type_synonym degree_map = "(string \<times> int) list"
type_synonym graph_map = "(string \<times> string list) list"

definition initMaps ::
  "('v, 'x, 'e) PipelineStep list \<Rightarrow> ('v, 'x, 'e) step_map \<times> degree_map \<times> graph_map" where
  "initMaps steps =
     foldl (\<lambda>(stepMap, inDegree, graph) step.
              (AList.update (step_id step) step stepMap,
               AList.update (step_id step) 0 inDegree,
               AList.update (step_id step) [] graph))
       ([], [], []) steps"

fun addDependencies ::
  "('v, 'x, 'e) step_map \<Rightarrow> string \<Rightarrow> string list \<Rightarrow> degree_map \<times> graph_map
     \<Rightarrow> 'e failure + degree_map \<times> graph_map" where
  "addDependencies stepMap sid [] acc = Inr acc"
| "addDependencies stepMap sid (depId # deps) (inDegree, graph) =
     (if map_of stepMap depId = None then Inl (MissingDependency depId sid)
      else
        addDependencies stepMap sid deps
          (AList.update sid ((case map_of inDegree sid of None \<Rightarrow> 0 | Some n \<Rightarrow> n) + 1) inDegree,
           (case map_of graph depId of
              None \<Rightarrow> graph
            | Some ds \<Rightarrow> AList.update depId (ds @ [sid]) graph)))"

fun buildGraph ::
  "('v, 'x, 'e) step_map \<Rightarrow> ('v, 'x, 'e) PipelineStep list \<Rightarrow> degree_map \<times> graph_map
     \<Rightarrow> 'e failure + degree_map \<times> graph_map" where
  "buildGraph stepMap [] acc = Inr acc"
| "buildGraph stepMap (step # rest) acc =
     (case dependencies step of
        None \<Rightarrow> buildGraph stepMap rest acc
      | Some deps \<Rightarrow>
          (case addDependencies stepMap (step_id step) deps acc of
             Inl err \<Rightarrow> Inl err
           | Inr acc1 \<Rightarrow> buildGraph stepMap rest acc1))"

definition initialQueue :: "degree_map \<Rightarrow> string list" where
  "initialQueue inDegree = map fst (filter (\<lambda>(stepId, degree). degree = 0) inDegree)"

text \<open>The inner loop over the dependents of the step taken from the queue.\<close>

fun releaseDependents :: "string list \<Rightarrow> degree_map \<times> string list \<Rightarrow> degree_map \<times> string list" where
  "releaseDependents [] acc = acc"
| "releaseDependents (dependentId # rest) (inDegree, queue) =
     (let currentDegree = (case map_of inDegree dependentId of None \<Rightarrow> 0 | Some n \<Rightarrow> n)
      in releaseDependents rest
           (AList.update dependentId (currentDegree - 1) inDegree,
            (if currentDegree - 1 = 0 then queue @ [dependentId] else queue)))"

definition pending :: "degree_map \<Rightarrow> nat" where
  "pending inDegree = length (filter (\<lambda>(stepId, degree). degree \<ge> 1) inDegree)"

text \<open>
  The loop over the queue ends: each round takes one id from the queue, and an id is added
  only when its degree drops from one to zero.
\<close>

lemma pending_update:
  "pending (AList.update k (cur - 1) deg) + (if cur - 1 = 0 then 1 else 0)
     \<le> pending deg" if "cur = (case map_of deg k of None \<Rightarrow> 0 | Some n \<Rightarrow> n)"
  using that by (induction deg) (auto simp: pending_def)

lemma releaseDependents_measure:
  "releaseDependents ds (deg, q) = (deg', q') \<Longrightarrow> pending deg' + length q' \<le> pending deg + length q"
proof (induction ds arbitrary: deg q)
  case Nil
  then show ?case by simp
next
  case (Cons d ds)
  let ?cur = "case map_of deg d of None \<Rightarrow> 0 | Some n \<Rightarrow> n"
  from Cons.prems have
    "releaseDependents ds (AList.update d (?cur - 1) deg, (if ?cur - 1 = 0 then q @ [d] else q)) = (deg', q')"
    by (simp add: Let_def)
  from Cons.IH[OF this] pending_update[of ?cur deg d, OF refl]
  show ?case by (auto split: if_splits)
qed

function kahn ::
  "('v, 'x, 'e) step_map \<Rightarrow> graph_map \<Rightarrow> degree_map \<Rightarrow> string list
     \<Rightarrow> ('v, 'x, 'e) PipelineStep list \<Rightarrow> ('v, 'x, 'e) PipelineStep list" where
  "kahn stepMap graph inDegree [] result = result"
| "kahn stepMap graph inDegree (sid # queue) result =
     (let result1 = (case map_of stepMap sid of Some step \<Rightarrow> result @ [step] | None \<Rightarrow> result);
          dependents = (case map_of graph sid of Some ds \<Rightarrow> ds | None \<Rightarrow> [])
      in case releaseDependents dependents (inDegree, queue) of
           (inDegree1, queue1) \<Rightarrow> kahn stepMap graph inDegree1 queue1 result1)"
  by pat_completeness auto
termination
proof (relation "measure (\<lambda>(stepMap, graph, inDegree, queue, result). pending inDegree + length queue)", goal_cases)
  case 1
  then show ?case by simp
next
  case (2 stepMap graph inDegree sid queue result x xa xb y)
  then show ?case using releaseDependents_measure[of xa inDegree queue xb y] by auto
qed

definition resolveDependencies ::
  "('v, 'x, 'e) PipelineStep list \<Rightarrow> 'e failure + ('v, 'x, 'e) PipelineStep list" where
  "resolveDependencies steps =
     (case initMaps steps of
        (stepMap, inDegree0, graph0) \<Rightarrow>
          (case buildGraph stepMap steps (inDegree0, graph0) of
             Inl err \<Rightarrow> Inl err
           | Inr (inDegree, graph) \<Rightarrow>
               (let queue = initialQueue inDegree;
                    result = kahn stepMap graph inDegree queue []
                in if length result \<noteq> length steps
                   then
                     (let missing =
                            filter (\<lambda>s. \<not> list_ex (\<lambda>r. step_id r = step_id s) result) steps
                      in Inl (CircularDependency (map step_id missing)))
                   else Inr result)))"

text \<open>\<^verbatim>\<open>findIndex\<close>: the position of the first match, or \<open>-1\<close>.\<close>

fun findIndex :: "('a \<Rightarrow> bool) \<Rightarrow> 'a list \<Rightarrow> int" where
  "findIndex P [] = - 1"
| "findIndex P (x # xs) =
     (if P x then 0 else (let i = findIndex P xs in if i < 0 then - 1 else i + 1))"

text \<open>
  What a call of \<^verbatim>\<open>run\<close> or \<^verbatim>\<open>resume\<close> leaves: the value it resolves or rejects with, and
  for the properties the state and the two local lists at that moment.
\<close>

record ('v, 'x, 'e) run_exit =
  outcome :: "'e failure + RunResult"
  finalState :: "('v, 'x, 'e) run_state"
  completedLocal :: "string list"
  failedLocal :: "string list"

definition finishRun ::
  "('v, 'x, 'e) PipelineStep list \<Rightarrow> ('v, 'x, 'e) loop_exit \<Rightarrow> ('v, 'x, 'e) run_exit" where
  "finishRun orderedSteps ex =
     \<lparr>outcome =
        (case thrown ex of
           Some error \<Rightarrow> Inl (Thrown error)
         | None \<Rightarrow>
             Inr \<lparr>totalSteps = int (length orderedSteps),
                  completedSteps = completedAtExit ex,
                  failedSteps = failedAtExit ex\<rparr>),
      finalState = exitState ex,
      completedLocal = completedAtExit ex,
      failedLocal = failedAtExit ex\<rparr>"

definition rejectRun ::
  "'e failure \<Rightarrow> ('v, 'x, 'e) run_state \<Rightarrow> string list \<Rightarrow> string list \<Rightarrow> ('v, 'x, 'e) run_exit" where
  "rejectRun err st completed failed =
     \<lparr>outcome = Inl err, finalState = st, completedLocal = completed, failedLocal = failed\<rparr>"

definition runner_run ::
  "RunnerConfig \<Rightarrow> ('v, 'x, 'e) RunnerLifecycle \<Rightarrow> ('v, 'x, 'e) PipelineStep list
     \<Rightarrow> RunOptions \<Rightarrow> 'x \<Rightarrow> ('v, 'x, 'e) run_exit" where
  "runner_run cfg lc steps opts out =
     (let mergedConfig = mergeConfig cfg opts;
          context = newScrapeContext mergedConfig out
      in case resolveDependencies steps of
           Inl err \<Rightarrow> rejectRun err (context, []) [] []
         | Inr orderedSteps \<Rightarrow>
             (let startIndex =
                    (case startStepId opts of
                       None \<Rightarrow> 0
                     | Some s \<Rightarrow>
                         if s = [] then 0 else findIndex (\<lambda>st. step_id st = s) orderedSteps)
              in if startIndex < 0
                 then rejectRun (StepNotFound (case startStepId opts of Some s \<Rightarrow> s | None \<Rightarrow> []))
                        (context, []) [] []
                 else
                   finishRun orderedSteps
                     (runSteps lc (int (length orderedSteps)) startIndex
                        (drop (nat startIndex) orderedSteps) (context, []) [] [])))"

definition runner_resume ::
  "RunnerConfig \<Rightarrow> ('v, 'x, 'e) RunnerLifecycle \<Rightarrow> ('v, 'x, 'e) PipelineStep list
     \<Rightarrow> 'v RunnerState \<Rightarrow> RunOptions \<Rightarrow> 'x \<Rightarrow> ('v, 'x, 'e) run_exit" where
  "runner_resume cfg lc steps state opts out =
     (let mergedConfig = mergeConfig cfg opts;
          context0 = newScrapeContext mergedConfig out;
          context =
            (case statePayload state of
               None \<Rightarrow> context0
             | Some p \<Rightarrow> context0\<lparr>data := data context0 ++ p\<rparr>)
      in case resolveDependencies steps of
           Inl err \<Rightarrow> rejectRun err (context, []) [] []
         | Inr orderedSteps \<Rightarrow>
             (let startIndex = stepIndex state
              in if startIndex < 0 \<or> startIndex \<ge> int (length orderedSteps)
                 then rejectRun (InvalidStepIndex startIndex) (context, []) [] []
                 else
                   finishRun orderedSteps
                     (runSteps lc (int (length orderedSteps)) startIndex
                        (drop (nat startIndex) orderedSteps) (context, [])
                        (completedStepIds state) (failedStepIds state))))"

subsection \<open>Notions used to state the properties of the runner\<close>

text \<open>
  None of the following is part of the program. \<open>successCalls\<close> are the calls the
  specification expects for one step that succeeds, \<open>hookResult\<close> is what an optional hook
  does to the context it is given (nothing, when the hook is absent), \<open>deps_of\<close> and \<open>edges\<close> read the dependency graph off the steps,
  \<open>kahnOrder\<close> names the sequence that \<^verbatim>\<open>resolveDependencies\<close> has built when it
  compares lengths, and \<open>kahn_inv\<close> is the invariant of its loop: the ids taken from the
  queue and those waiting in it are pairwise distinct, the degree of an id counts its
  dependencies not yet taken, an id is taken or waiting exactly when that count is zero, and
  every id was taken after all its dependencies.
\<close>

definition present :: "'a option \<Rightarrow> 'c \<Rightarrow> 'c list" where
  "present h c = (case h of None \<Rightarrow> [] | Some _ \<Rightarrow> [c])"

definition successCalls ::
  "('v, 'x, 'e) RunnerLifecycle \<Rightarrow> ('v, 'x, 'e) PipelineStep \<Rightarrow> StepLifecycleEvent \<Rightarrow> 'e call list" where
  "successCalls lc step ev =
     present (lifecycleBeforeStep lc) (BeforeStep RunnerLevel ev)
     @ present (beforeStep step) (BeforeStep StepLevel ev)
     @ [RunBody (step_id step)]
     @ present (lifecycleAfterStep lc) (AfterStep RunnerLevel ev)
     @ present (afterStep step) (AfterStep StepLevel ev)"

fun successLog ::
  "('v, 'x, 'e) RunnerLifecycle \<Rightarrow> int \<Rightarrow> int \<Rightarrow> ('v, 'x, 'e) PipelineStep list \<Rightarrow> 'e call list" where
  "successLog lc totalCount stepIdx [] = []"
| "successLog lc totalCount stepIdx (step # rest) =
     successCalls lc step \<lparr>evStep = step_id step, evStepIndex = stepIdx, evTotalSteps = totalCount\<rparr>
     @ successLog lc totalCount (stepIdx + 1) rest"

definition hookResult :: "('a \<Rightarrow> ('v, 'x, 'e) callback) option \<Rightarrow> 'a \<Rightarrow> ('v, 'x, 'e) callback" where
  "hookResult h ev c = (case h of None \<Rightarrow> (None, c) | Some f \<Rightarrow> f ev c)"

definition degOf :: "degree_map \<Rightarrow> string \<Rightarrow> int" where
  "degOf deg x = (case map_of deg x of None \<Rightarrow> 0 | Some n \<Rightarrow> n)"

definition dependentsOf :: "graph_map \<Rightarrow> string \<Rightarrow> string list" where
  "dependentsOf g d = (case map_of g d of Some ds \<Rightarrow> ds | None \<Rightarrow> [])"

definition kahn_inv ::
  "string list \<Rightarrow> (string \<times> string) list \<Rightarrow> degree_map \<Rightarrow> string list \<Rightarrow> string list \<Rightarrow> bool" where
  "kahn_inv K E deg queue doneL \<longleftrightarrow>
     distinct (doneL @ queue) \<and> set (doneL @ queue) \<subseteq> set K \<and> map fst deg = K
     \<and> (\<forall>x\<in>set K. degOf deg x = int (length (filter (\<lambda>e. snd e = x \<and> fst e \<notin> set doneL) E)))
     \<and> (\<forall>x\<in>set K. x \<in> set (doneL @ queue) \<longleftrightarrow> degOf deg x = 0)
     \<and> (\<forall>pre y post. doneL = pre @ y # post \<longrightarrow> (\<forall>e\<in>set E. snd e = y \<longrightarrow> fst e \<in> set pre))"

definition graph_ok :: "string list \<Rightarrow> (string \<times> string) list \<Rightarrow> graph_map \<Rightarrow> bool" where
  "graph_ok K E g \<longleftrightarrow>
     (\<forall>e\<in>set E. fst e \<in> set K \<and> snd e \<in> set K)
     \<and> (\<forall>d\<in>set K. dependentsOf g d = map snd (filter (\<lambda>e. fst e = d) E))"

definition stepMap_ok :: "string list \<Rightarrow> ('v, 'x, 'e) step_map \<Rightarrow> bool" where
  "stepMap_ok K sm \<longleftrightarrow> (\<forall>x\<in>set K. \<exists>s. map_of sm x = Some s \<and> step_id s = x)"

definition deps_of :: "('v, 'x, 'e) PipelineStep \<Rightarrow> string list" where
  "deps_of s = (case dependencies s of None \<Rightarrow> [] | Some ds \<Rightarrow> ds)"

definition edges :: "('v, 'x, 'e) PipelineStep list \<Rightarrow> (string \<times> string) list" where
  "edges steps = concat (map (\<lambda>s. map (\<lambda>d. (d, step_id s)) (deps_of s)) steps)"

definition kahnOrder :: "('v, 'x, 'e) PipelineStep list \<Rightarrow> ('v, 'x, 'e) PipelineStep list" where
  "kahnOrder steps =
     (case initMaps steps of
        (stepMap, inDegree0, graph0) \<Rightarrow>
          (case buildGraph stepMap steps (inDegree0, graph0) of
             Inl err \<Rightarrow> []
           | Inr (inDegree, graph) \<Rightarrow> kahn stepMap graph inDegree (initialQueue inDegree) []))"

definition closed_deps :: "('v, 'x, 'e) PipelineStep list \<Rightarrow> bool" where
  "closed_deps steps \<longleftrightarrow> (\<forall>s\<in>set steps. set (deps_of s) \<subseteq> step_id ` set steps)"


section \<open>Iteration controller (class LoopController)\<close>

text \<open>
  The callbacks of the controller are code of the caller. Each is modelled as a function
  from the state it can read and write (\<open>'w\<close>) to the thrown value, if any, and the state it
  leaves; the accessor \<^verbatim>\<open>getCurrentStepValue\<close> only reads. Numbers are integers. The calls
  made are recorded in \<open>loopCalls\<close>, which is not part of the program.

  The callback that \<^verbatim>\<open>loopDelay\<close> hands to \<^verbatim>\<open>setInterval\<close> is \<^verbatim>\<open>async\<close>, and the timer does not
  wait for it: a firing of the timer runs the callback up to \<^verbatim>\<open>await todo(currentIndex, list)\<close>,
  and the rest of the \<^verbatim>\<open>try\<close> block, or the \<^verbatim>\<open>catch\<close> block, runs when the promise of that
  call settles, which may be after later firings. The model therefore has two kinds of
  events, the firing of the timer and the settling of one of the promises in flight, and
  a run of the loop is given by the sequence of its events; the variables \<^verbatim>\<open>currentIndex\<close>
  and \<^verbatim>\<open>remainingTime\<close> are read when the code reads them, that is at the firing for the
  argument of \<^verbatim>\<open>todo\<close> and at the settling for everything after the \<^verbatim>\<open>await\<close>. An item
  callback acts on the state when it is called; its outcome is held in \<open>inFlight\<close> until its
  promise settles. An item callback that throws before it returns a promise is the case
  of a settling that follows the firing at once. After \<^verbatim>\<open>clearInterval\<close> the timer fires no
  more, so a firing of a cleared timer changes nothing. Nothing follows
  \<^verbatim>\<open>await done(list)\<close>, so the completion callback needs no settling.
\<close>

type_synonym ('w, 'e) action = "'w \<Rightarrow> 'e option \<times> 'w"

record ('a, 'e) LoopFailure =
  failureIndex :: int
  failureError :: 'e
  failureItem :: "'a option"
  failureTimestamp :: int

record ('a, 'w, 'e) LoopControllerOptions =
  isProductionOpt :: "bool option"
  maxItemsOpt :: "int option"
  onProgressOpt :: "(int \<Rightarrow> int \<Rightarrow> int \<Rightarrow> ('w, 'e) action) option"
  onFailureOpt :: "(int \<Rightarrow> 'e \<Rightarrow> 'a option \<Rightarrow> ('w, 'e) action) option"
  getCurrentStepValueOpt :: "('w \<Rightarrow> int) option"
  setLogForCurrentStepIndexOpt :: "(int \<Rightarrow> ('w, 'e) action) option"

record ('a, 'w, 'e) LoopController =
  ctlIsProduction :: bool
  ctlMaxItems :: int
  onProgress :: "(int \<Rightarrow> int \<Rightarrow> int \<Rightarrow> ('w, 'e) action) option"
  onFailure :: "(int \<Rightarrow> 'e \<Rightarrow> 'a option \<Rightarrow> ('w, 'e) action) option"
  getCurrentStepValue :: "('w \<Rightarrow> int) option"
  setLogIndex :: "(int \<Rightarrow> ('w, 'e) action) option"

definition DEFAULT_MAX_ITEMS :: int where
  "DEFAULT_MAX_ITEMS = 10"

definition newLoopController :: "('a, 'w, 'e) LoopControllerOptions \<Rightarrow> ('a, 'w, 'e) LoopController" where
  "newLoopController options =
     \<lparr>ctlIsProduction = (case isProductionOpt options of None \<Rightarrow> False | Some b \<Rightarrow> b),
      ctlMaxItems = (case maxItemsOpt options of None \<Rightarrow> DEFAULT_MAX_ITEMS | Some n \<Rightarrow> n),
      onProgress = onProgressOpt options,
      onFailure = onFailureOpt options,
      getCurrentStepValue = getCurrentStepValueOpt options,
      setLogIndex = setLogForCurrentStepIndexOpt options\<rparr>"

datatype ('a, 'e) loop_call =
    TodoCall int
  | SetLogCall int
  | ProgressCall int int int
  | FailureCall int 'e "'a option"
  | DoneCall

text \<open>
  The state of a loop: the fields \<^verbatim>\<open>failures\<close> and \<^verbatim>\<open>intervalId\<close> of the controller, the
  variables \<^verbatim>\<open>currentIndex\<close> and \<^verbatim>\<open>remainingTime\<close> that the interval's callback closes
  over, the state of the callbacks, and the outcomes of the item callbacks whose promise
  has not settled yet, in the order of their calls.
\<close>

record ('a, 'w, 'e) loop_state =
  currentIndex :: int
  remainingTime :: int
  failures :: "('a, 'e) LoopFailure list"
  intervalActive :: bool
  world :: 'w
  loopCalls :: "('a, 'e) loop_call list"
  inFlight :: "'e option list"

definition invoke ::
  "('a, 'e) loop_call \<Rightarrow> ('w, 'e) action \<Rightarrow> ('a, 'w, 'e) loop_state
     \<Rightarrow> 'e option \<times> ('a, 'w, 'e) loop_state" where
  "invoke c f s =
     (case f (world s) of (r, w') \<Rightarrow> (r, s\<lparr>world := w', loopCalls := loopCalls s @ [c]\<rparr>))"

definition invokeIfSet ::
  "('a, 'e) loop_call \<Rightarrow> ('w, 'e) action option \<Rightarrow> ('a, 'w, 'e) loop_state
     \<Rightarrow> 'e option \<times> ('a, 'w, 'e) loop_state" where
  "invokeIfSet c h s = (case h of None \<Rightarrow> (None, s) | Some f \<Rightarrow> invoke c f s)"

text \<open>\<^verbatim>\<open>list[i]\<close>: the element, or \<^verbatim>\<open>undefined\<close> outside the list.\<close>

definition itemAt :: "'a list \<Rightarrow> int \<Rightarrow> 'a option" where
  "itemAt list i = (if 0 \<le> i \<and> i < int (length list) then Some (list ! nat i) else None)"

text \<open>The part of \<^verbatim>\<open>loopDelay\<close> before \<^verbatim>\<open>setInterval\<close>: the bound and the first state.\<close>

definition adjustedLimitOf :: "('a, 'w, 'e) LoopController \<Rightarrow> int \<Rightarrow> 'w \<Rightarrow> int" where
  "adjustedLimitOf ctl limit w =
     (let adjustedLimit = (if \<not> ctlIsProduction ctl \<and> limit > ctlMaxItems ctl
                           then ctlMaxItems ctl else limit)
      in case getCurrentStepValue ctl of
           None \<Rightarrow> adjustedLimit
         | Some g \<Rightarrow> if g w > 0 then adjustedLimit - g w else adjustedLimit)"

definition startIndexOf :: "('a, 'w, 'e) LoopController \<Rightarrow> int \<Rightarrow> 'w \<Rightarrow> int" where
  "startIndexOf ctl i w =
     (case getCurrentStepValue ctl of
        None \<Rightarrow> i
      | Some g \<Rightarrow> if g w > 0 then g w else i)"

definition loopStart ::
  "('a, 'w, 'e) LoopController \<Rightarrow> ('a, 'e) LoopFailure list \<Rightarrow> int \<Rightarrow> int \<Rightarrow> int \<Rightarrow> 'w
     \<Rightarrow> ('a, 'w, 'e) loop_state" where
  "loopStart ctl fs limit delayMs i w =
     \<lparr>currentIndex = startIndexOf ctl i w,
      remainingTime = (adjustedLimitOf ctl limit w + 2) * delayMs,
      failures = fs,
      intervalActive = True,
      world = w,
      loopCalls = [],
      inFlight = []\<rparr>"

text \<open>
  A firing of the timer: the interval's callback up to its first \<^verbatim>\<open>await\<close>. In the first
  branch that is the call of the item callback with the current index, whose promise is
  then in flight; in the second it is the whole branch.
\<close>

definition timerFires ::
  "('a, 'w, 'e) LoopController \<Rightarrow> (int \<Rightarrow> 'a list \<Rightarrow> ('w, 'e) action) \<Rightarrow> ('a list \<Rightarrow> ('w, 'e) action)
     \<Rightarrow> int \<Rightarrow> 'a list \<Rightarrow> ('a, 'w, 'e) loop_state \<Rightarrow> ('a, 'w, 'e) loop_state" where
  "timerFires ctl todo done' adjustedLimit list s =
     (if \<not> intervalActive s then s
      else if currentIndex s \<le> adjustedLimit then
        (case invoke (TodoCall (currentIndex s)) (todo (currentIndex s) list) s of
           (r, s1) \<Rightarrow> s1\<lparr>inFlight := inFlight s1 @ [r]\<rparr>)
      else
        (let s1 = s\<lparr>intervalActive := False\<rparr>
         in case invokeIfSet (SetLogCall 0) (map_option (\<lambda>f. f 0) (setLogIndex ctl)) s1 of
              (None, s2) \<Rightarrow> snd (invoke DoneCall (done' list) s2)
            | (Some thrownByHook, s2) \<Rightarrow> s2))"

text \<open>The \<^verbatim>\<open>try\<close> block after \<^verbatim>\<open>await todo(currentIndex, list)\<close>, up to \<^verbatim>\<open>currentIndex++\<close>.\<close>

definition afterItem ::
  "('a, 'w, 'e) LoopController \<Rightarrow> int \<Rightarrow> int \<Rightarrow> ('a, 'w, 'e) loop_state
     \<Rightarrow> 'e option \<times> ('a, 'w, 'e) loop_state" where
  "afterItem ctl delayMs adjustedLimit s1 =
     andThen (invokeIfSet (SetLogCall (currentIndex s1))
                (map_option (\<lambda>f. f (currentIndex s1)) (setLogIndex ctl)) s1)
       (\<lambda>s2.
          let s3 = s2\<lparr>remainingTime := remainingTime s2 - delayMs\<rparr>
          in invokeIfSet (ProgressCall (currentIndex s3) adjustedLimit (remainingTime s3))
               (map_option (\<lambda>f. f (currentIndex s3) adjustedLimit (remainingTime s3)) (onProgress ctl))
               s3)"

text \<open>
  The settling of the promise at position \<open>k\<close> among those in flight, while \<^verbatim>\<open>Date.now()\<close>
  reads \<open>now\<close>: the rest of the \<^verbatim>\<open>try\<close> block if the promise is fulfilled, and the \<^verbatim>\<open>catch\<close>
  block if it is rejected or if that rest throws.
\<close>

definition settles ::
  "('a, 'w, 'e) LoopController \<Rightarrow> int \<Rightarrow> int \<Rightarrow> 'a list \<Rightarrow> nat \<Rightarrow> int
     \<Rightarrow> ('a, 'w, 'e) loop_state \<Rightarrow> ('a, 'w, 'e) loop_state" where
  "settles ctl delayMs adjustedLimit list k now s =
     (if length (inFlight s) \<le> k then s
      else
        let s0 = s\<lparr>inFlight := take k (inFlight s) @ drop (Suc k) (inFlight s)\<rparr>
        in case (case inFlight s ! k of
                   None \<Rightarrow> afterItem ctl delayMs adjustedLimit s0
                 | Some rejection \<Rightarrow> (Some rejection, s0)) of
             (None, s1) \<Rightarrow> s1\<lparr>currentIndex := currentIndex s1 + 1\<rparr>
           | (Some error, s1) \<Rightarrow>
               (let failure = \<lparr>failureIndex = currentIndex s1, failureError = error,
                               failureItem = itemAt list (currentIndex s1), failureTimestamp = now\<rparr>;
                    s2 = s1\<lparr>failures := failures s1 @ [failure]\<rparr>
                in case invokeIfSet
                          (FailureCall (currentIndex s2) error (itemAt list (currentIndex s2)))
                          (map_option (\<lambda>f. f (currentIndex s2) error (itemAt list (currentIndex s2)))
                             (onFailure ctl)) s2 of
                     (None, s3) \<Rightarrow> s3\<lparr>currentIndex := currentIndex s3 + 1\<rparr>
                   | (Some thrownByHook, s3) \<Rightarrow> s3))"

datatype timer_event = TimerFires | Settles nat int

definition timerStep ::
  "('a, 'w, 'e) LoopController \<Rightarrow> (int \<Rightarrow> 'a list \<Rightarrow> ('w, 'e) action) \<Rightarrow> ('a list \<Rightarrow> ('w, 'e) action)
     \<Rightarrow> int \<Rightarrow> int \<Rightarrow> 'a list \<Rightarrow> timer_event \<Rightarrow> ('a, 'w, 'e) loop_state \<Rightarrow> ('a, 'w, 'e) loop_state" where
  "timerStep ctl todo done' delayMs adjustedLimit list ev s =
     (case ev of
        TimerFires \<Rightarrow> timerFires ctl todo done' adjustedLimit list s
      | Settles k now \<Rightarrow> settles ctl delayMs adjustedLimit list k now s)"

fun runEvents ::
  "('a, 'w, 'e) LoopController \<Rightarrow> (int \<Rightarrow> 'a list \<Rightarrow> ('w, 'e) action) \<Rightarrow> ('a list \<Rightarrow> ('w, 'e) action)
     \<Rightarrow> int \<Rightarrow> int \<Rightarrow> 'a list \<Rightarrow> timer_event list \<Rightarrow> ('a, 'w, 'e) loop_state
     \<Rightarrow> ('a, 'w, 'e) loop_state" where
  "runEvents ctl todo done' delayMs adjustedLimit list [] s = s"
| "runEvents ctl todo done' delayMs adjustedLimit list (ev # evs) s =
     runEvents ctl todo done' delayMs adjustedLimit list evs
       (timerStep ctl todo done' delayMs adjustedLimit list ev s)"

text \<open>
  \<^verbatim>\<open>loopDelay(limit, todo, done, delay, i, list)\<close> followed by the given events, on a
  controller whose \<^verbatim>\<open>failures\<close> are \<open>fs\<close>.
\<close>

definition loopDelay ::
  "('a, 'w, 'e) LoopController \<Rightarrow> ('a, 'e) LoopFailure list \<Rightarrow> int
     \<Rightarrow> (int \<Rightarrow> 'a list \<Rightarrow> ('w, 'e) action) \<Rightarrow> ('a list \<Rightarrow> ('w, 'e) action)
     \<Rightarrow> int \<Rightarrow> int \<Rightarrow> 'a list \<Rightarrow> timer_event list \<Rightarrow> 'w \<Rightarrow> ('a, 'w, 'e) loop_state" where
  "loopDelay ctl fs limit todo done' delayMs i list events w =
     runEvents ctl todo done' delayMs (adjustedLimitOf ctl limit w) list events
       (loopStart ctl fs limit delayMs i w)"

definition stop :: "('a, 'w, 'e) loop_state \<Rightarrow> ('a, 'w, 'e) loop_state" where
  "stop s = s\<lparr>intervalActive := False\<rparr>"

subsection \<open>Notions used to state the properties of the controller\<close>

text \<open>
  Not part of the program. A run is \<^emph>\<open>awaited\<close> when every promise settles before the timer
  fires again: \<open>awaited clock\<close> is the run with one firing per clock reading, each followed
  by the settling of the promise it has put in flight, if any, at that reading. The
  indices for which the item callback was called and the arguments of the calls of the
  failure callback are read off the recorded calls; \<open>replay\<close> applies the callbacks named
  by a sequence of recorded calls to a state, one after the other, and \<open>effectOf\<close> is what
  an optional callback does to the state; \<open>tracks\<close> says of two states of a loop that the
  state of the callbacks in the second is that of the first after the calls recorded in
  between; \<open>awaitedTick\<close> is a firing followed by the settling of the oldest promise in
  flight. The remaining notions are the conditions under
  which the optional callbacks return normally, the absence of a position to resume from,
  and the bound after the safety cap.
\<close>

definition awaited :: "int list \<Rightarrow> timer_event list" where
  "awaited clock = concat (map (\<lambda>now. [TimerFires, Settles 0 now]) clock)"

fun todoIndices :: "('a, 'e) loop_call list \<Rightarrow> int list" where
  "todoIndices [] = []"
| "todoIndices (TodoCall i # cs) = i # todoIndices cs"
| "todoIndices (c # cs) = todoIndices cs"

fun failureCalls :: "('a, 'e) loop_call list \<Rightarrow> (int \<times> 'e \<times> 'a option) list" where
  "failureCalls [] = []"
| "failureCalls (FailureCall i e it # cs) = (i, e, it) # failureCalls cs"
| "failureCalls (c # cs) = failureCalls cs"

definition effectOf :: "('w, 'e) action option \<Rightarrow> 'w \<Rightarrow> 'w" where
  "effectOf h w = (case h of None \<Rightarrow> w | Some f \<Rightarrow> snd (f w))"

fun callEffect ::
  "('a, 'w, 'e) LoopController \<Rightarrow> (int \<Rightarrow> 'a list \<Rightarrow> ('w, 'e) action) \<Rightarrow> ('a list \<Rightarrow> ('w, 'e) action)
     \<Rightarrow> 'a list \<Rightarrow> ('a, 'e) loop_call \<Rightarrow> 'w \<Rightarrow> 'w" where
  "callEffect ctl todo done' list (TodoCall i) w = snd (todo i list w)"
| "callEffect ctl todo done' list (SetLogCall i) w =
     effectOf (map_option (\<lambda>f. f i) (setLogIndex ctl)) w"
| "callEffect ctl todo done' list (ProgressCall i l r) w =
     effectOf (map_option (\<lambda>f. f i l r) (onProgress ctl)) w"
| "callEffect ctl todo done' list (FailureCall i e it) w =
     effectOf (map_option (\<lambda>f. f i e it) (onFailure ctl)) w"
| "callEffect ctl todo done' list DoneCall w = snd (done' list w)"

definition replay ::
  "('a, 'w, 'e) LoopController \<Rightarrow> (int \<Rightarrow> 'a list \<Rightarrow> ('w, 'e) action) \<Rightarrow> ('a list \<Rightarrow> ('w, 'e) action)
     \<Rightarrow> 'a list \<Rightarrow> ('a, 'e) loop_call list \<Rightarrow> 'w \<Rightarrow> 'w" where
  "replay ctl todo done' list calls w = foldl (\<lambda>w c. callEffect ctl todo done' list c w) w calls"

definition awaitedTick ::
  "('a, 'w, 'e) LoopController \<Rightarrow> (int \<Rightarrow> 'a list \<Rightarrow> ('w, 'e) action) \<Rightarrow> ('a list \<Rightarrow> ('w, 'e) action)
     \<Rightarrow> int \<Rightarrow> int \<Rightarrow> 'a list \<Rightarrow> int \<Rightarrow> ('a, 'w, 'e) loop_state \<Rightarrow> ('a, 'w, 'e) loop_state" where
  "awaitedTick ctl todo done' delayMs adjustedLimit list now s =
     settles ctl delayMs adjustedLimit list 0 now (timerFires ctl todo done' adjustedLimit list s)"

definition tracks ::
  "('a, 'w, 'e) LoopController \<Rightarrow> (int \<Rightarrow> 'a list \<Rightarrow> ('w, 'e) action) \<Rightarrow> ('a list \<Rightarrow> ('w, 'e) action)
     \<Rightarrow> 'a list \<Rightarrow> ('a, 'w, 'e) loop_state \<Rightarrow> ('a, 'w, 'e) loop_state \<Rightarrow> bool" where
  "tracks ctl todo done' list s s' \<longleftrightarrow>
     (\<exists>new. loopCalls s' = loopCalls s @ new \<and> world s' = replay ctl todo done' list new (world s))"

definition quietSetLog :: "('a, 'w, 'e) LoopController \<Rightarrow> bool" where
  "quietSetLog ctl = (case setLogIndex ctl of None \<Rightarrow> True | Some f \<Rightarrow> \<forall>i w. fst (f i w) = None)"

definition quietProgress :: "('a, 'w, 'e) LoopController \<Rightarrow> bool" where
  "quietProgress ctl =
     (case onProgress ctl of None \<Rightarrow> True | Some f \<Rightarrow> \<forall>i l r w. fst (f i l r w) = None)"

definition quietFailure :: "('a, 'w, 'e) LoopController \<Rightarrow> bool" where
  "quietFailure ctl =
     (case onFailure ctl of None \<Rightarrow> True | Some f \<Rightarrow> \<forall>i e it w. fst (f i e it w) = None)"

definition noResume :: "('a, 'w, 'e) LoopController \<Rightarrow> 'w \<Rightarrow> bool" where
  "noResume ctl w = (case getCurrentStepValue ctl of None \<Rightarrow> True | Some g \<Rightarrow> \<not> g w > 0)"

definition cappedLimit :: "('a, 'w, 'e) LoopController \<Rightarrow> int \<Rightarrow> int" where
  "cappedLimit ctl limit =
     (if \<not> ctlIsProduction ctl \<and> limit > ctlMaxItems ctl then ctlMaxItems ctl else limit)"

section \<open>Concrete stores, pipelines and controllers\<close>

text \<open>
  The stores, directories, pipelines and controllers at which the properties below are
  instantiated, together with the few remaining notions of their statements: the bodies
  run according to a call log, a valid dependency graph, callbacks that return, and the
  context that \<^verbatim>\<open>resume\<close> builds from a saved state. The hooks and bodies of the traced
  pipelines append a mark to the state outside the context, so that the order in which
  they have run can be read from it.
\<close>

definition devLogger :: StepLogger where
  "devLogger = newStepLogger ''r'' None None"

definition prodLogger :: StepLogger where
  "prodLogger = newStepLogger ''r'' None (Some True)"

definition two_records :: "StepLogger \<Rightarrow> int \<Rightarrow> int \<Rightarrow> 'p log_dir" where
  "two_records lg t1 t2 =
     [(buildFilePath lg ''step1'',
        Parsed \<lparr>stepId = ''step1'', index = 0, fails = [], updatedAt = t1, payload = None\<rparr>),
      (buildFilePath lg ''step2'',
        Parsed \<lparr>stepId = ''step2'', index = 10, fails = [], updatedAt = t2, payload = None\<rparr>)]"

definition stored_dir :: "unit log_dir" where
  "stored_dir =
     [(''r-s.json'',
        Parsed \<lparr>stepId = ''s'', index = 5, fails = [Inl 4], updatedAt = 1, payload = None\<rparr>)]"

definition foreign_dir :: "unit log_dir" where
  "foreign_dir =
     [(''r-a.json'',
        Parsed \<lparr>stepId = ''b'', index = 3, fails = [Inl 1], updatedAt = 1, payload = None\<rparr>)]"

fun bodiesRun :: "'e call list \<Rightarrow> string list" where
  "bodiesRun [] = []"
| "bodiesRun (RunBody s # cs) = s # bodiesRun cs"
| "bodiesRun (c # cs) = bodiesRun cs"

definition valid_dag :: "('v, 'x, 'e) PipelineStep list \<Rightarrow> bool" where
  "valid_dag steps \<longleftrightarrow>
     distinct (map step_id steps) \<and> closed_deps steps \<and> acyclic (set (edges steps))"

definition returning :: "(('v, 'x) ScrapeContext \<Rightarrow> ('v, 'x) ScrapeContext) \<Rightarrow> ('v, 'x, 'e) callback" where
  "returning f = (\<lambda>c. (None, f c))"

definition plainStep :: "string \<Rightarrow> string list \<Rightarrow> ('v, 'x, 'e) callback \<Rightarrow> ('v, 'x, 'e) PipelineStep" where
  "plainStep i ds body =
     \<lparr>step_id = i, dependencies = Some ds, run = body,
      beforeStep = None, afterStep = None, onError = None\<rparr>"

definition noLifecycle :: "('v, 'x, 'e) RunnerLifecycle" where
  "noLifecycle = \<lparr>lifecycleBeforeStep = None, lifecycleAfterStep = None, lifecycleOnError = None\<rparr>"

definition defaultOptions :: RunOptions where
  "defaultOptions = \<lparr>optMode = None, optMaxItems = None, optDelay = None, startStepId = None\<rparr>"

definition devConfig :: RunnerConfig where
  "devConfig = \<lparr>mode = Development, delay = 100, maxItems = None\<rparr>"

definition abc_steps ::
  "('v, 'x, 'e) callback \<Rightarrow> ('v, 'x, 'e) callback \<Rightarrow> ('v, 'x, 'e) callback
     \<Rightarrow> ('v, 'x, 'e) PipelineStep list" where
  "abc_steps bA bB bC =
     [plainStep ''C'' [''B''] bC, plainStep ''A'' [] bA, plainStep ''B'' [''A''] bB]"

definition cycle_steps :: "(unit, unit, unit) PipelineStep list" where
  "cycle_steps = [plainStep ''A'' [''B''] (returning id), plainStep ''B'' [''A''] (returning id)]"

definition missing_steps :: "(unit, unit, unit) PipelineStep list" where
  "missing_steps = [plainStep ''A'' [''B'', ''Z''] (returning id), plainStep ''B'' [''A''] (returning id)]"

definition leaveMark :: "string \<Rightarrow> (unit, string list, unit) callback" where
  "leaveMark s = (\<lambda>c. (None, c\<lparr>outside := outside c @ [s]\<rparr>))"

definition failWithMark :: "string \<Rightarrow> (unit, string list, unit) callback" where
  "failWithMark s = (\<lambda>c. (Some (), c\<lparr>outside := outside c @ [s]\<rparr>))"

definition tracingHooks :: "(unit, string list, unit) RunnerLifecycle" where
  "tracingHooks =
     \<lparr>lifecycleBeforeStep = Some (\<lambda>ev. leaveMark (''runner beforeStep '' @ evStep ev)),
      lifecycleAfterStep = Some (\<lambda>ev. leaveMark (''runner afterStep '' @ evStep ev)),
      lifecycleOnError = Some (\<lambda>ev. leaveMark (''runner onError '' @ evStep ev))\<rparr>"

definition tracedStep ::
  "string \<Rightarrow> string list \<Rightarrow> (unit, string list, unit) callback
     \<Rightarrow> (unit, string list, unit) PipelineStep" where
  "tracedStep i ds body =
     \<lparr>step_id = i, dependencies = Some ds, run = body,
      beforeStep = Some (\<lambda>ev. leaveMark (''step beforeStep '' @ evStep ev)),
      afterStep = Some (\<lambda>ev. leaveMark (''step afterStep '' @ evStep ev)),
      onError = Some (\<lambda>ev. leaveMark (''step onError '' @ evStep ev))\<rparr>"

definition tracedContext :: "(unit, string list) ScrapeContext" where
  "tracedContext = newScrapeContext devConfig []"

definition marked :: "string list \<Rightarrow> (unit, string list) ScrapeContext" where
  "marked ms = tracedContext\<lparr>outside := ms\<rparr>"

definition stepA :: "(unit, string list, unit) PipelineStep" where
  "stepA = tracedStep ''A'' [] (leaveMark ''body A'')"

definition stepB :: "(unit, string list, unit) PipelineStep" where
  "stepB = tracedStep ''B'' [''A''] (leaveMark ''body B'')"

definition failing_pipeline :: "(unit, string list, unit) PipelineStep list" where
  "failing_pipeline =
     [tracedStep ''C'' [''B''] (leaveMark ''body C''), stepA,
      tracedStep ''B'' [''A''] (failWithMark ''body B'')]"

definition failing_hook_pipeline :: "(unit, string list, unit) PipelineStep list" where
  "failing_hook_pipeline =
     [tracedStep ''C'' [''B''] (leaveMark ''body C''), stepA,
      (tracedStep ''B'' [''A''] (leaveMark ''body B''))
        \<lparr>beforeStep := Some (\<lambda>ev. failWithMark (''step beforeStep '' @ evStep ev))\<rparr>]"

definition errorEventOfB :: "unit StepErrorEvent" where
  "errorEventOfB = \<lparr>evStep = ''B'', evStepIndex = 1, evTotalSteps = 3,
                    evError = (), attempt = 1, willRetry = False\<rparr>"

definition seededContext ::
  "RunnerConfig \<Rightarrow> RunOptions \<Rightarrow> 'v RunnerState \<Rightarrow> 'x \<Rightarrow> ('v, 'x) ScrapeContext" where
  "seededContext cfg opts state out =
     \<lparr>config = mergeConfig cfg opts,
      data = (case statePayload state of None \<Rightarrow> Map.empty | Some p \<Rightarrow> p),
      stepState = Map.empty, metadata = Map.empty, outside = out\<rparr>"

definition resumeAt :: "int \<Rightarrow> unit RunnerState" where
  "resumeAt k = \<lparr>currentStepId = ''B'', stepIndex = k, completedStepIds = [''A''],
                 failedStepIds = [], statePayload = Some [''seen'' \<mapsto> ()]\<rparr>"

definition two_steps :: "(unit, unit, unit) PipelineStep list" where
  "two_steps = [plainStep ''step1'' [] (returning id), plainStep ''step2'' [''step1''] (returning id)]"

definition plainController :: "(nat, nat list, string) LoopController" where
  "plainController =
     newLoopController
       \<lparr>isProductionOpt = None, maxItemsOpt = None, onProgressOpt = None,
        onFailureOpt = Some (\<lambda>i e it w. (None, w @ [100 + nat i])),
        getCurrentStepValueOpt = None,
        setLogForCurrentStepIndexOpt = Some (\<lambda>i w. (None, w @ [200 + nat i]))\<rparr>"

definition resumedController :: "int \<Rightarrow> (nat, nat list, string) LoopController" where
  "resumedController p =
     newLoopController
       \<lparr>isProductionOpt = None, maxItemsOpt = None, onProgressOpt = None,
        onFailureOpt = None,
        getCurrentStepValueOpt = Some (\<lambda>w. p),
        setLogForCurrentStepIndexOpt = Some (\<lambda>i w. (None, w @ [200 + nat i]))\<rparr>"

definition cappedController :: "(nat, nat list, string) LoopController" where
  "cappedController =
     newLoopController
       \<lparr>isProductionOpt = None, maxItemsOpt = Some 3, onProgressOpt = None,
        onFailureOpt = None, getCurrentStepValueOpt = None,
        setLogForCurrentStepIndexOpt = None\<rparr>"

definition throwingController :: "(nat, nat list, string) LoopController" where
  "throwingController =
     newLoopController
       \<lparr>isProductionOpt = None, maxItemsOpt = None, onProgressOpt = None,
        onFailureOpt = None, getCurrentStepValueOpt = None,
        setLogForCurrentStepIndexOpt = Some (\<lambda>i w. (Some ''disk full'', w))\<rparr>"

definition resumedThrowing :: "int \<Rightarrow> (nat, nat list, string) LoopController" where
  "resumedThrowing p =
     newLoopController
       \<lparr>isProductionOpt = None, maxItemsOpt = None, onProgressOpt = None,
        onFailureOpt = Some (\<lambda>i e it w. (Some ''handler failed'', w)),
        getCurrentStepValueOpt = Some (\<lambda>w. p),
        setLogForCurrentStepIndexOpt = Some (\<lambda>i w. (Some ''disk full'', w))\<rparr>"

definition failAt2 :: "int \<Rightarrow> nat list \<Rightarrow> (nat list, string) action" where
  "failAt2 i l = (\<lambda>w. if i = 2 then (Some ''boom'', w) else (None, w @ [nat i]))"

definition noteDone :: "nat list \<Rightarrow> (nat list, string) action" where
  "noteDone l = (\<lambda>w. (None, w @ [999]))"

definition nineTicks :: "int list" where
  "nineTicks = [1, 2, 3, 4, 5, 6, 7, 8, 9]"

text \<open>
  A run in which the item callback takes three and a half delays: the timer fires four
  times before the first promise settles, and from then on firings and settlings alternate.
\<close>

definition slowItems :: "timer_event list" where
  "slowItems =
     [TimerFires, TimerFires, TimerFires, TimerFires, Settles 0 45,
      TimerFires, Settles 0 55, TimerFires, Settles 0 65, TimerFires, Settles 0 75,
      TimerFires, Settles 0 85, TimerFires, Settles 0 95, TimerFires]"
text \<open>A run in which the timer fires twice before the first promise settles.\<close>

definition twoAtOnce :: "timer_event list" where
  "twoAtOnce = [TimerFires, TimerFires, Settles 0 25, Settles 0 26, TimerFires]"

section \<open>Properties of the state store\<close>

lemma readStep_writeStep:
  "stepId r = sid \<Longrightarrow> readStep lg t sid (writeStep lg r d) = r"
  by (simp add: readStep_def writeStep_def safeReadFile_def update_conv')

lemma readStep_stepId:
  "record_keyed lg d sid \<Longrightarrow> stepId (readStep lg t sid d) = sid"
  by (auto simp: readStep_def record_keyed_def freshRecord_def
      split: option.splits file_content.splits)

lemma find_as_filter:
  "find P xs = (case filter P xs of [] \<Rightarrow> None | x # _ \<Rightarrow> Some x)"
  by (induction xs) auto

lemma find_rev_as_filter:
  "find P (rev xs) = (if filter P xs = [] then None else Some (last (filter P xs)))"
  by (induction xs rule: rev_induct) auto

lemma relevant_buildFilePath: "relevantFile lg (buildFilePath lg sid)"
  by (simp add: relevantFile_def buildFilePath_def suffix_def)

lemma buildFilePath_inj: "buildFilePath lg a = buildFilePath lg b \<longleftrightarrow> a = b"
  by (simp add: buildFilePath_def)

lemma getAllLogs_two:
  "getAllLogs lg (two_records lg t1 t2 :: 'p log_dir) =
     sort_key updatedAt
      [\<lparr>stepId = ''step1'', index = 0, fails = [], updatedAt = t1, payload = None\<rparr>,
       \<lparr>stepId = ''step2'', index = 10, fails = [], updatedAt = t2,
          payload = None :: (string \<rightharpoonup> 'p) option\<rparr>]"
  by (simp add: getAllLogs_def two_records_def safeReadDir_def relevant_buildFilePath
      safeReadFile_def buildFilePath_inj)

lemma two_records_state:
  "currentStepId (buildRunnerState lg None (two_records lg t1 t2)) = ''step2''
   \<and> stepIndex (buildRunnerState lg None (two_records lg t1 t2)) = 10"
  by (cases "t1 \<le> t2")
    (simp_all add: buildRunnerState_def getAllLogs_two inferCurrentStep_def Let_def)

lemma persisting_prodLogger: "shouldPersist prodLogger"
  by (simp add: prodLogger_def newStepLogger_def shouldPersist_def)

lemma not_persisting_devLogger: "\<not> shouldPersist devLogger"
  by (simp add: devLogger_def newStepLogger_def shouldPersist_def)

lemma readStep_other:
  "buildFilePath lg (stepId r) \<noteq> buildFilePath lg sid \<Longrightarrow>
   index (readStep lg t' sid (writeStep lg r d)) = index (readStep lg t sid d)
   \<and> fails (readStep lg t' sid (writeStep lg r d)) = fails (readStep lg t sid d)"
  by (auto simp: readStep_def writeStep_def safeReadFile_def update_conv' freshRecord_def
      split: option.splits file_content.splits)

lemma readStep_same:
  "buildFilePath lg (stepId r) = buildFilePath lg sid \<Longrightarrow>
   readStep lg t' sid (writeStep lg r d) = r"
  by (simp add: readStep_def writeStep_def safeReadFile_def update_conv')

lemma readStep_clock:
  "index (readStep lg t' sid d) = index (readStep lg t sid d)"
  "fails (readStep lg t' sid d) = fails (readStep lg t sid d)"
  by (auto simp: readStep_def freshRecord_def split: option.splits file_content.splits)

lemma setProgress_keeps_fails:
  assumes "n \<noteq> 0"
  shows "fails (getLogByStep lg t' sid (setLogForCurrentStepIndex lg t sid n d))
           = fails (getLogByStep lg t sid d)"
proof (cases "shouldPersist lg")
  case False
  then show ?thesis
    by (simp add: setLogForCurrentStepIndex_def getLogByStep_def readStep_clock(2)[of lg t' sid d t])
next
  case True
  let ?r = "readStep lg t sid d"
  let ?w = "?r\<lparr>index := n, updatedAt := t\<rparr>"
  have e: "setLogForCurrentStepIndex lg t sid n d = writeStep lg ?w d"
    using True assms by (simp add: setLogForCurrentStepIndex_def Let_def)
  show ?thesis
  proof (cases "buildFilePath lg (stepId ?w) = buildFilePath lg sid")
    case True
    from readStep_same[OF True, of t' d] show ?thesis by (simp add: e getLogByStep_def)
  next
    case False
    from readStep_other[OF False, of t' d t] show ?thesis by (simp add: e getLogByStep_def)
  qed
qed

lemma recordFailure_keeps_index:
  "index (getLogByStep lg t' sid (setLogForCurrentStepFails lg t sid f d))
     = index (getLogByStep lg t sid d)"
proof (cases "shouldPersist lg")
  case False
  then show ?thesis
    by (simp add: setLogForCurrentStepFails_def getLogByStep_def readStep_clock(1)[of lg t' sid d t])
next
  case True
  let ?r = "readStep lg t sid d"
  let ?w = "?r\<lparr>fails := fails ?r @ [f], updatedAt := t\<rparr>"
  have e: "setLogForCurrentStepFails lg t sid f d = writeStep lg ?w d"
    using True by (simp add: setLogForCurrentStepFails_def Let_def)
  show ?thesis
  proof (cases "buildFilePath lg (stepId ?w) = buildFilePath lg sid")
    case True
    from readStep_same[OF True, of t' d] show ?thesis by (simp add: e getLogByStep_def)
  next
    case False
    from readStep_other[OF False, of t' d t] show ?thesis by (simp add: e getLogByStep_def)
  qed
qed

text \<open>
  Claim C4, as the code has it. Every mutation starts with the guard
  \<^verbatim>\<open>if (!this.shouldPersist()) return\<close>, and \<^verbatim>\<open>writeStep\<close> names the file after the
  \<open>stepId\<close> inside the record it has read. In every store, setting the progress to a value
  other than 0 leaves \<open>fails\<close> as it was, and recording a failure leaves \<open>index\<close> as it
  was. In a store that persists, for a step whose file holds that step's own record (or
  none, or unreadable text): setting the progress to 0 leaves an empty \<open>fails\<close> list;
  recording a failure appends the marker after the earlier ones; and each of the two
  operations stamps \<open>updatedAt\<close> with the time of the call. In a store that does not
  persist, both operations return the directory they were given.
\<close>

theorem store_mutations:
  "(shouldPersist lg \<and> record_keyed lg d sid \<longrightarrow>
       fails (getLogByStep lg t' sid (setLogForCurrentStepIndex lg t sid 0 d)) = []
     \<and> index (getLogByStep lg t' sid (setLogForCurrentStepIndex lg t sid n d)) = n
     \<and> updatedAt (getLogByStep lg t' sid (setLogForCurrentStepIndex lg t sid n d)) = t
     \<and> fails (getLogByStep lg t' sid (setLogForCurrentStepFails lg t sid f d))
         = fails (getLogByStep lg t sid d) @ [f]
     \<and> updatedAt (getLogByStep lg t' sid (setLogForCurrentStepFails lg t sid f d)) = t)
   \<and> (n \<noteq> 0 \<longrightarrow>
       fails (getLogByStep lg t' sid (setLogForCurrentStepIndex lg t sid n d))
         = fails (getLogByStep lg t sid d))
   \<and> index (getLogByStep lg t' sid (setLogForCurrentStepFails lg t sid f d))
       = index (getLogByStep lg t sid d)
   \<and> (\<not> shouldPersist lg \<longrightarrow>
       setLogForCurrentStepIndex lg t sid n d = d \<and> setLogForCurrentStepFails lg t sid f d = d)"
proof -
  have 1: "shouldPersist lg \<and> record_keyed lg d sid \<longrightarrow>
       fails (getLogByStep lg t' sid (setLogForCurrentStepIndex lg t sid 0 d)) = []
     \<and> index (getLogByStep lg t' sid (setLogForCurrentStepIndex lg t sid n d)) = n
     \<and> updatedAt (getLogByStep lg t' sid (setLogForCurrentStepIndex lg t sid n d)) = t
     \<and> fails (getLogByStep lg t' sid (setLogForCurrentStepFails lg t sid f d))
         = fails (getLogByStep lg t sid d) @ [f]
     \<and> updatedAt (getLogByStep lg t' sid (setLogForCurrentStepFails lg t sid f d)) = t"
    by (simp add: getLogByStep_def setLogForCurrentStepIndex_def setLogForCurrentStepFails_def
        Let_def readStep_writeStep readStep_stepId)
  have 2: "n \<noteq> 0 \<longrightarrow>
       fails (getLogByStep lg t' sid (setLogForCurrentStepIndex lg t sid n d))
         = fails (getLogByStep lg t sid d)"
    using setProgress_keeps_fails[of n lg t' sid t d] by blast
  have 3: "index (getLogByStep lg t' sid (setLogForCurrentStepFails lg t sid f d))
       = index (getLogByStep lg t sid d)"
    by (rule recordFailure_keeps_index)
  have 4: "\<not> shouldPersist lg \<longrightarrow>
       setLogForCurrentStepIndex lg t sid n d = d \<and> setLogForCurrentStepFails lg t sid f d = d"
    by (simp add: setLogForCurrentStepIndex_def setLogForCurrentStepFails_def)
  show ?thesis using 1 2 3 4 by blast
qed

theorem store_mutations_witness:
  "shouldPersist prodLogger \<and> record_keyed prodLogger stored_dir ''s'' \<and> (3::int) \<noteq> 0
   \<and> \<not> shouldPersist devLogger
   \<and> fails (getLogByStep prodLogger 9 ''s'' (setLogForCurrentStepIndex prodLogger 8 ''s'' 0 stored_dir)) = []
   \<and> fails (getLogByStep prodLogger 9 ''s'' (setLogForCurrentStepIndex prodLogger 8 ''s'' 3 stored_dir))
       = [Inl 4]
   \<and> fails (getLogByStep prodLogger 9 ''s'' (setLogForCurrentStepFails prodLogger 8 ''s'' (Inl 7) stored_dir))
       = [Inl 4, Inl 7]
   \<and> index (getLogByStep prodLogger 9 ''s'' (setLogForCurrentStepFails prodLogger 8 ''s'' (Inl 7) stored_dir))
       = 5
   \<and> updatedAt (getLogByStep prodLogger 9 ''s'' (setLogForCurrentStepFails prodLogger 8 ''s'' (Inl 7) stored_dir))
       = 8
   \<and> setLogForCurrentStepFails devLogger 8 ''s'' (Inl 7) stored_dir = stored_dir"
proof -
  have k: "record_keyed prodLogger stored_dir ''s''"
    by (simp add: record_keyed_def stored_dir_def safeReadFile_def buildFilePath_def
        filePrefix_def prodLogger_def newStepLogger_def)
  have r: "getLogByStep prodLogger 8 ''s'' stored_dir =
      \<lparr>stepId = ''s'', index = 5, fails = [Inl 4], updatedAt = 1, payload = None\<rparr>"
    by (simp add: getLogByStep_def readStep_def stored_dir_def safeReadFile_def buildFilePath_def
        filePrefix_def prodLogger_def newStepLogger_def)
  have n: "(3::int) \<noteq> 0" by simp
  note p = store_mutations[of prodLogger stored_dir "''s''" 9 8 3 "Inl 7"]
  note q = store_mutations[of devLogger stored_dir "''s''" 9 8 3 "Inl 7"]
  from p persisting_prodLogger k have
    a1: "fails (getLogByStep prodLogger 9 ''s'' (setLogForCurrentStepIndex prodLogger 8 ''s'' 0 stored_dir)) = []"
    and a2: "fails (getLogByStep prodLogger 9 ''s'' (setLogForCurrentStepFails prodLogger 8 ''s'' (Inl 7) stored_dir))
         = fails (getLogByStep prodLogger 8 ''s'' stored_dir) @ [Inl 7]"
    and a3: "updatedAt (getLogByStep prodLogger 9 ''s'' (setLogForCurrentStepFails prodLogger 8 ''s'' (Inl 7) stored_dir)) = 8"
    by blast+
  from p n have a4: "fails (getLogByStep prodLogger 9 ''s'' (setLogForCurrentStepIndex prodLogger 8 ''s'' 3 stored_dir))
         = fails (getLogByStep prodLogger 8 ''s'' stored_dir)" by blast
  from p have a5: "index (getLogByStep prodLogger 9 ''s'' (setLogForCurrentStepFails prodLogger 8 ''s'' (Inl 7) stored_dir))
       = index (getLogByStep prodLogger 8 ''s'' stored_dir)" by blast
  from q not_persisting_devLogger have a6: "setLogForCurrentStepFails devLogger 8 ''s'' (Inl 7) stored_dir = stored_dir"
    by blast
  have b2: "fails (getLogByStep prodLogger 9 ''s'' (setLogForCurrentStepFails prodLogger 8 ''s'' (Inl 7) stored_dir))
       = [Inl 4, Inl 7]" using a2 r by simp
  have b4: "fails (getLogByStep prodLogger 9 ''s'' (setLogForCurrentStepIndex prodLogger 8 ''s'' 3 stored_dir))
       = [Inl 4]" using a4 r by simp
  have b5: "index (getLogByStep prodLogger 9 ''s'' (setLogForCurrentStepFails prodLogger 8 ''s'' (Inl 7) stored_dir))
       = 5" using a5 r by simp
  show ?thesis
    using persisting_prodLogger k n not_persisting_devLogger a1 b4 b2 b5 a3 a6
    by (intro conjI) assumption+
qed

text \<open>
  The claim as stated fails: a store built with the constructor's defaults does not persist,
  and recording a failure there appends nothing; and where the file of step \<open>a\<close> holds a
  record of another step, setting the progress of \<open>a\<close> to 0 writes that other step's file
  and leaves the failures read for \<open>a\<close> in place.
\<close>

theorem store_mutations_counterexample:
  "fails (getLogByStep devLogger 1 ''s''
            (setLogForCurrentStepFails devLogger 0 ''s'' (Inl 7) ([] :: unit log_dir)))
     \<noteq> fails (getLogByStep devLogger 0 ''s'' ([] :: unit log_dir)) @ [Inl 7]
   \<and> fails (getLogByStep prodLogger 1 ''a''
            (setLogForCurrentStepIndex prodLogger 0 ''a'' 0 foreign_dir)) \<noteq> []"
  by (simp add: getLogByStep_def setLogForCurrentStepFails_def setLogForCurrentStepIndex_def
      devLogger_def prodLogger_def newStepLogger_def shouldPersist_def readStep_def
      safeReadFile_def freshRecord_def foreign_dir_def writeStep_def buildFilePath_def
      filePrefix_def)

lemma read_ignores_mode:
  "runId lg' = runId lg \<Longrightarrow> getLogByStep lg' t sid d = getLogByStep lg t sid d"
  by (simp add: getLogByStep_def readStep_def buildFilePath_def filePrefix_def)

lemma getAllLogs_ignores_mode:
  assumes "runId lg' = runId lg"
  shows "getAllLogs lg' d = getAllLogs lg d"
proof -
  have "relevantFile lg' = relevantFile lg"
    using assms by (auto simp: relevantFile_def filePrefix_def fun_eq_iff)
  then show ?thesis by (simp add: getAllLogs_def)
qed

text \<open>
  Claim C7, as the code has it. In a store that persists in production only and is not in
  production, the three record mutations and the two clear operations return the directory
  they were given. Reads are not gated: \<^verbatim>\<open>getLogByStep\<close> returns the record that the file
  of the step holds, and the fresh default record (index 0, no failures, no payload) exactly
  when the directory holds no readable record for the step, as is the case in a directory
  that only such a store has written to. What is read does not depend on the mode: every
  store with the same run identifier reads the same records, so that a progress or a
  failure written by a store that persists is read back by the one that does not.
\<close>

theorem non_production_store:
  fixes d :: "'p log_dir"
  assumes "persistInProductionOnly lg" and "\<not> isProduction lg"
  shows "setLogForCurrentStepIndex lg t sid n d = d
    \<and> setLogForCurrentStepFails lg t sid f d = d
    \<and> setStepPayload lg t sid p d = d
    \<and> clearStep lg sid d = d
    \<and> clearAll lg d = d
    \<and> (safeReadFile d (buildFilePath lg sid) = Some (Parsed r) \<longrightarrow> getLogByStep lg t sid d = r)
    \<and> (no_record lg d sid \<longrightarrow> getLogByStep lg t sid d = freshRecord t sid)
    \<and> (runId lg' = runId lg \<longrightarrow>
          getLogByStep lg t sid d = getLogByStep lg' t sid d \<and> getAllLogs lg d = getAllLogs lg' d)
    \<and> (runId lg' = runId lg \<and> shouldPersist lg' \<and> record_keyed lg' d sid \<longrightarrow>
          index (getLogByStep lg t' sid (setLogForCurrentStepIndex lg' t sid n d)) = n
        \<and> fails (getLogByStep lg t' sid (setLogForCurrentStepFails lg' t sid f d))
            = fails (getLogByStep lg t sid d) @ [f])
    \<and> index (freshRecord t sid :: 'p StepLogRecord) = 0
    \<and> fails (freshRecord t sid :: 'p StepLogRecord) = []
    \<and> getLogByStep lg t sid ([] :: 'p log_dir) = freshRecord t sid
    \<and> getAllLogs lg ([] :: 'p log_dir) = []"
proof -
  have np: "\<not> shouldPersist lg" using assms by (simp add: shouldPersist_def)
  have w: "setLogForCurrentStepIndex lg t sid n d = d"
      "setLogForCurrentStepFails lg t sid f d = d"
      "setStepPayload lg t sid p d = d"
      "clearStep lg sid d = d"
      "clearAll lg d = d"
    using np
    by (simp_all add: setLogForCurrentStepIndex_def setLogForCurrentStepFails_def
        setStepPayload_def clearStep_def clearAll_def)
  have r1: "safeReadFile d (buildFilePath lg sid) = Some (Parsed r) \<longrightarrow> getLogByStep lg t sid d = r"
    by (simp add: getLogByStep_def readStep_def)
  have r2: "no_record lg d sid \<longrightarrow> getLogByStep lg t sid d = freshRecord t sid"
    by (auto simp: no_record_def getLogByStep_def readStep_def
        split: option.splits file_content.splits)
  have r3: "runId lg' = runId lg \<longrightarrow>
          getLogByStep lg t sid d = getLogByStep lg' t sid d \<and> getAllLogs lg d = getAllLogs lg' d"
    using read_ignores_mode[of lg' lg t sid d] getAllLogs_ignores_mode[of lg' lg d] by simp
  have r4: "runId lg' = runId lg \<and> shouldPersist lg' \<and> record_keyed lg' d sid \<longrightarrow>
          index (getLogByStep lg t' sid (setLogForCurrentStepIndex lg' t sid n d)) = n
        \<and> fails (getLogByStep lg t' sid (setLogForCurrentStepFails lg' t sid f d))
            = fails (getLogByStep lg t sid d) @ [f]"
  proof (intro impI, elim conjE)
    assume e: "runId lg' = runId lg" and sp: "shouldPersist lg'" and k: "record_keyed lg' d sid"
    have a: "getLogByStep lg t' sid x = getLogByStep lg' t' sid x" for x :: "'p log_dir"
      using read_ignores_mode[OF e, of t' sid x] by simp
    have b: "getLogByStep lg t sid d = getLogByStep lg' t sid d"
      using read_ignores_mode[OF e, of t sid d] by simp
    have "index (getLogByStep lg' t' sid (setLogForCurrentStepIndex lg' t sid n d)) = n
        \<and> fails (getLogByStep lg' t' sid (setLogForCurrentStepFails lg' t sid f d))
            = fails (getLogByStep lg' t sid d) @ [f]"
      using sp k
      by (simp add: getLogByStep_def setLogForCurrentStepIndex_def setLogForCurrentStepFails_def
          Let_def readStep_writeStep readStep_stepId)
    then show "index (getLogByStep lg t' sid (setLogForCurrentStepIndex lg' t sid n d)) = n
        \<and> fails (getLogByStep lg t' sid (setLogForCurrentStepFails lg' t sid f d))
            = fails (getLogByStep lg t sid d) @ [f]"
      by (simp only: a b)
  qed
  have r5: "index (freshRecord t sid :: 'p StepLogRecord) = 0"
      "fails (freshRecord t sid :: 'p StepLogRecord) = []"
      "getLogByStep lg t sid ([] :: 'p log_dir) = freshRecord t sid"
      "getAllLogs lg ([] :: 'p log_dir) = []"
    by (simp_all add: freshRecord_def getLogByStep_def readStep_def safeReadFile_def
        getAllLogs_def safeReadDir_def)
  show ?thesis using w r1 r2 r3 r4 r5 by (intro conjI) assumption+
qed

theorem non_production_store_witness:
  "persistInProductionOnly devLogger \<and> \<not> isProduction devLogger
   \<and> no_record devLogger ([] :: unit log_dir) ''s''
   \<and> safeReadFile stored_dir (buildFilePath devLogger ''s'')
       = Some (Parsed \<lparr>stepId = ''s'', index = 5, fails = [Inl 4], updatedAt = 1, payload = None\<rparr>)
   \<and> runId prodLogger = runId devLogger \<and> shouldPersist prodLogger
   \<and> record_keyed prodLogger stored_dir ''s''
   \<and> setLogForCurrentStepIndex devLogger 8 ''s'' 3 stored_dir = stored_dir
   \<and> setLogForCurrentStepFails devLogger 8 ''s'' (Inl 7) stored_dir = stored_dir
   \<and> clearAll devLogger stored_dir = stored_dir
   \<and> getLogByStep devLogger 8 ''s'' ([] :: unit log_dir) = freshRecord 8 ''s''
   \<and> getLogByStep devLogger 8 ''s'' stored_dir
       = \<lparr>stepId = ''s'', index = 5, fails = [Inl 4], updatedAt = 1, payload = None\<rparr>
   \<and> index (getLogByStep devLogger 9 ''s'' (setLogForCurrentStepIndex prodLogger 8 ''s'' 3 stored_dir)) = 3
   \<and> fails (getLogByStep devLogger 9 ''s'' (setLogForCurrentStepFails prodLogger 8 ''s'' (Inl 7) stored_dir))
       = [Inl 4, Inl 7]"
proof -
  let ?r = "\<lparr>stepId = ''s'', index = 5, fails = [Inl 4 :: int + string], updatedAt = 1,
             payload = None :: (string \<rightharpoonup> unit) option\<rparr>"
  have a: "persistInProductionOnly devLogger" and b: "\<not> isProduction devLogger"
    by (simp_all add: devLogger_def newStepLogger_def)
  have c: "no_record devLogger ([] :: unit log_dir) ''s''"
    by (simp add: no_record_def safeReadFile_def)
  have f: "safeReadFile stored_dir (buildFilePath devLogger ''s'') = Some (Parsed ?r)"
    by (simp add: stored_dir_def safeReadFile_def buildFilePath_def filePrefix_def
        devLogger_def newStepLogger_def)
  have e: "runId prodLogger = runId devLogger"
    by (simp add: devLogger_def prodLogger_def newStepLogger_def)
  have k: "record_keyed prodLogger stored_dir ''s''"
    by (simp add: record_keyed_def stored_dir_def safeReadFile_def buildFilePath_def
        filePrefix_def prodLogger_def newStepLogger_def)
  note p = non_production_store [OF a b, of 8 "''s''" 3 stored_dir "Inl 7" Map.empty ?r prodLogger 9]
  note q = non_production_store [OF a b, of 8 "''s''" 3 "[] :: unit log_dir" "Inl 7" Map.empty ?r prodLogger 9]
  from p have w1: "setLogForCurrentStepIndex devLogger 8 ''s'' 3 stored_dir = stored_dir"
    and w2: "setLogForCurrentStepFails devLogger 8 ''s'' (Inl 7) stored_dir = stored_dir"
    and w3: "clearAll devLogger stored_dir = stored_dir" by blast+
  from q c have g0: "getLogByStep devLogger 8 ''s'' ([] :: unit log_dir) = freshRecord 8 ''s''"
    by blast
  from p f have g1: "getLogByStep devLogger 8 ''s'' stored_dir = ?r" by blast
  from p e persisting_prodLogger k have
    g2: "index (getLogByStep devLogger 9 ''s'' (setLogForCurrentStepIndex prodLogger 8 ''s'' 3 stored_dir)) = 3"
    and g3: "fails (getLogByStep devLogger 9 ''s'' (setLogForCurrentStepFails prodLogger 8 ''s'' (Inl 7) stored_dir))
       = fails (getLogByStep devLogger 8 ''s'' stored_dir) @ [Inl 7]" by blast+
  have g4: "fails (getLogByStep devLogger 9 ''s'' (setLogForCurrentStepFails prodLogger 8 ''s'' (Inl 7) stored_dir))
       = [Inl 4, Inl 7]" using g3 g1 by simp
  show ?thesis
    using a b c f e persisting_prodLogger k w1 w2 w3 g0 g1 g2 g4
    by (intro conjI) assumption+
qed

text \<open>
  The claim as stated fails on its reads: a record that a production run left in the
  directory is read back by a store that is not in production.
\<close>

theorem non_production_store_counterexample:
  "persistInProductionOnly devLogger \<and> \<not> isProduction devLogger
   \<and> index (getLogByStep devLogger 0 ''s'' stored_dir) = 5
   \<and> fails (getLogByStep devLogger 0 ''s'' stored_dir) \<noteq> []"
  by (simp add: devLogger_def newStepLogger_def getLogByStep_def readStep_def stored_dir_def
      safeReadFile_def buildFilePath_def filePrefix_def)

section \<open>Properties of the step runner\<close>

lemma fire_log:
  "fire c h st = (r, st') \<Longrightarrow> snd st' = snd st @ present h c"
  by (auto simp: fire_def present_def split: option.splits prod.splits)

lemma fire_map_log:
  "fire c (map_option g h) st = (r, st') \<Longrightarrow> snd st' = snd st @ present h c"
  by (auto simp: fire_def present_def split: option.splits prod.splits)

lemma executeStep_success_log:
  assumes "executeStep lc step idx n st = (None, st')"
  shows "snd st' = snd st @ successCalls lc step \<lparr>evStep = step_id step, evStepIndex = idx, evTotalSteps = n\<rparr>"
  using assms
  unfolding executeStep_def Let_def andThen_def fireOnError_def successCalls_def
  by (auto split: prod.splits option.splits dest!: fire_map_log fire_log simp: present_def)

lemma runSteps_success_log:
  "thrown (runSteps lc n idx steps st completed failed) = None \<Longrightarrow>
   snd (exitState (runSteps lc n idx steps st completed failed)) = snd st @ successLog lc n idx steps
   \<and> completedAtExit (runSteps lc n idx steps st completed failed) = completed @ map step_id steps
   \<and> failedAtExit (runSteps lc n idx steps st completed failed) = failed"
proof (induction steps arbitrary: idx st completed)
  case Nil
  then show ?case by simp
next
  case (Cons step rest)
  obtain r st1 where e: "executeStep lc step idx n st = (r, st1)" by (cases "executeStep lc step idx n st")
  show ?case
  proof (cases r)
    case None
    with e Cons.prems have "thrown (runSteps lc n (idx + 1) rest st1 (completed @ [step_id step]) failed) = None"
      by simp
    from Cons.IH[OF this] e None executeStep_success_log[of lc step idx n st st1]
    show ?thesis by simp
  next
    case (Some err)
    obtain r2 st2 where f: "fireOnError lc step \<lparr>evStep = step_id step, evStepIndex = idx, evTotalSteps = n,
                  evError = err, attempt = 1, willRetry = False\<rparr> st1 = (r2, st2)"
      by (cases "fireOnError lc step \<lparr>evStep = step_id step, evStepIndex = idx, evTotalSteps = n,
                  evError = err, attempt = 1, willRetry = False\<rparr> st1")
    with e Some Cons.prems show ?thesis
      by (cases r2) (simp_all add: Let_def andThen_def)
  qed
qed

lemma runSteps_append:
  "thrown (runSteps lc n idx pre st completed failed) = None \<Longrightarrow>
   runSteps lc n idx (pre @ rest) st completed failed =
     runSteps lc n (idx + int (length pre)) rest
       (exitState (runSteps lc n idx pre st completed failed))
       (completed @ map step_id pre) failed"
proof (induction pre arbitrary: idx st completed)
  case Nil
  then show ?case by simp
next
  case (Cons step pre)
  obtain r st1 where e: "executeStep lc step idx n st = (r, st1)" by (cases "executeStep lc step idx n st")
  show ?case
  proof (cases r)
    case None
    with e Cons.prems have "thrown (runSteps lc n (idx + 1) pre st1 (completed @ [step_id step]) failed) = None"
      by simp
    from Cons.IH[OF this] e None show ?thesis by (simp add: add.assoc)
  next
    case (Some err)
    with e Cons.prems show ?thesis
      by (simp add: Let_def andThen_def split: prod.splits option.splits)
  qed
qed

lemma fire_hookResult:
  "fire c (map_option (\<lambda>h. h ev) h) (c0, log) = (r, st') \<longleftrightarrow>
     hookResult h ev c0 = (r, fst st') \<and> snd st' = log @ present h c"
  by (cases h; cases st') (auto simp: fire_def hookResult_def present_def split: prod.splits)

lemma fire_body:
  "fire c (Some f) (c0, log) = (r, st') \<longleftrightarrow> f c0 = (r, fst st') \<and> snd st' = log @ [c]"
  by (cases st') (auto simp: fire_def split: prod.splits)

lemma executeStep_success:
  fixes lc :: "('v, 'x, 'e) RunnerLifecycle"
  defines "ev \<equiv> \<lambda>step idx n. \<lparr>evStep = step_id step, evStepIndex = idx, evTotalSteps = n\<rparr>"
  shows "executeStep lc step idx n (c0, log) = (None, (c5, log')) \<longleftrightarrow>
     (\<exists>c1 c2 c3 c4.
        hookResult (lifecycleBeforeStep lc) (ev step idx n) c0 = (None, c1)
      \<and> hookResult (beforeStep step) (ev step idx n) c1 = (None, c2)
      \<and> run step c2 = (None, c3)
      \<and> hookResult (lifecycleAfterStep lc) (ev step idx n) c3 = (None, c4)
      \<and> hookResult (afterStep step) (ev step idx n) c4 = (None, c5))
     \<and> log' = log @ successCalls lc step (ev step idx n)"
proof -
  let ?ev = "\<lparr>evStep = step_id step, evStepIndex = idx, evTotalSteps = n\<rparr>"
  obtain r1 c1 l1 where f1: "fire (BeforeStep RunnerLevel ?ev)
      (map_option (\<lambda>h. h ?ev) (lifecycleBeforeStep lc)) (c0, log) = (r1, (c1, l1))"
    by (metis surj_pair)
  from f1 have h1: "hookResult (lifecycleBeforeStep lc) ?ev c0 = (r1, c1)"
    and l1: "l1 = log @ present (lifecycleBeforeStep lc) (BeforeStep RunnerLevel ?ev)"
    by (simp_all add: fire_hookResult)
  obtain r2 c2 l2 where f2: "fire (BeforeStep StepLevel ?ev)
      (map_option (\<lambda>h. h ?ev) (beforeStep step)) (c1, l1) = (r2, (c2, l2))"
    by (metis surj_pair)
  from f2 have h2: "hookResult (beforeStep step) ?ev c1 = (r2, c2)"
    and l2: "l2 = l1 @ present (beforeStep step) (BeforeStep StepLevel ?ev)"
    by (simp_all add: fire_hookResult)
  obtain r3 c3 l3 where f3: "fire (RunBody (step_id step)) (Some (run step)) (c2, l2) = (r3, (c3, l3))"
    by (metis surj_pair)
  from f3 have h3: "run step c2 = (r3, c3)" and l3: "l3 = l2 @ [RunBody (step_id step)]"
    by (simp_all add: fire_body)
  obtain r4 c4 l4 where f4: "fire (AfterStep RunnerLevel ?ev)
      (map_option (\<lambda>h. h ?ev) (lifecycleAfterStep lc)) (c3, l3) = (r4, (c4, l4))"
    by (metis surj_pair)
  from f4 have h4: "hookResult (lifecycleAfterStep lc) ?ev c3 = (r4, c4)"
    and l4: "l4 = l3 @ present (lifecycleAfterStep lc) (AfterStep RunnerLevel ?ev)"
    by (simp_all add: fire_hookResult)
  obtain r5 c5' l5 where f5: "fire (AfterStep StepLevel ?ev)
      (map_option (\<lambda>h. h ?ev) (afterStep step)) (c4, l4) = (r5, (c5', l5))"
    by (metis surj_pair)
  from f5 have h5: "hookResult (afterStep step) ?ev c4 = (r5, c5')"
    and l5: "l5 = l4 @ present (afterStep step) (AfterStep StepLevel ?ev)"
    by (simp_all add: fire_hookResult)
  have ll: "l5 = log @ successCalls lc step ?ev"
    by (simp add: l1 l2 l3 l4 l5 successCalls_def)
  have ex: "executeStep lc step idx n (c0, log) = (None, (c5, log')) \<longleftrightarrow>
      r1 = None \<and> r2 = None \<and> r3 = None \<and> r4 = None \<and> r5 = None \<and> c5' = c5 \<and> l5 = log'"
    using f1 f2 f3 f4 f5
    by (cases r1; cases r2; cases r3; cases r4; cases r5)
       (auto simp: executeStep_def Let_def andThen_def fireOnError_def split: prod.splits option.splits)
  show ?thesis
    unfolding ev_def ex using h1 h2 h3 h4 h5 ll by auto
qed

lemma runSteps_prefix:
  "thrown (runSteps lc n idx (pre @ rest) st completed failed) = None \<Longrightarrow>
   thrown (runSteps lc n idx pre st completed failed) = None"
proof (induction pre arbitrary: idx st completed)
  case Nil
  then show ?case by simp
next
  case (Cons step pre)
  obtain r st1 where e: "executeStep lc step idx n st = (r, st1)" by (cases "executeStep lc step idx n st")
  show ?case
  proof (cases r)
    case None
    with e Cons.prems Cons.IH[of "idx + 1" st1 "completed @ [step_id step]"] show ?thesis by simp
  next
    case (Some err)
    with e Cons.prems show ?thesis by (simp add: Let_def split: prod.splits)
  qed
qed

lemma runSteps_single:
  "thrown (runSteps lc n idx [step] st completed failed) = None \<Longrightarrow>
   executeStep lc step idx n st = (None, exitState (runSteps lc n idx [step] st completed failed))"
  by (cases "executeStep lc step idx n st")
     (auto simp: Let_def andThen_def split: prod.splits option.splits)

lemma runSteps_each_step:
  assumes "thrown (runSteps lc n idx (pre @ step # post) st completed failed) = None"
  shows "executeStep lc step (idx + int (length pre)) n
           (exitState (runSteps lc n idx pre st completed failed))
         = (None, exitState (runSteps lc n idx (pre @ [step]) st completed failed))"
proof -
  from assms have "thrown (runSteps lc n idx ((pre @ [step]) @ post) st completed failed) = None"
    by simp
  then have a: "thrown (runSteps lc n idx (pre @ [step]) st completed failed) = None"
    by (rule runSteps_prefix)
  then have b: "thrown (runSteps lc n idx pre st completed failed) = None"
    by (rule runSteps_prefix)
  note c = runSteps_append[OF b, of "[step]"]
  from a runSteps_single[of lc n "idx + int (length pre)" step
      "exitState (runSteps lc n idx pre st completed failed)" "completed @ map step_id pre" failed]
  show ?thesis unfolding c by simp
qed

lemma degOf_update: "degOf (AList.update k v deg) x = (if x = k then v else degOf deg x)"
  by (simp add: degOf_def update_conv')

lemma keys_update_present: "k \<in> set (map fst al) \<Longrightarrow> map fst (AList.update k v al) = map fst al"
  by (simp add: update_keys)

lemma releaseDependents_spec:
  assumes "set ds \<subseteq> set (map fst deg)"
    and "\<forall>y\<in>set ds. int (count_list ds y) \<le> degOf deg y"
  shows "\<exists>news. releaseDependents ds (deg, q) = (fst (releaseDependents ds (deg, q)), q @ news)
     \<and> distinct news
     \<and> set news = {y \<in> set ds. degOf deg y = int (count_list ds y)}
     \<and> (\<forall>y. degOf (fst (releaseDependents ds (deg, q))) y = degOf deg y - int (count_list ds y))
     \<and> map fst (fst (releaseDependents ds (deg, q))) = map fst deg"
  using assms
proof (induction ds arbitrary: deg q)
  case Nil
  then show ?case by simp
next
  case (Cons y rest)
  let ?cur = "degOf deg y"
  let ?deg1 = "AList.update y (?cur - 1) deg"
  let ?q1 = "if ?cur - 1 = 0 then q @ [y] else q"
  have step: "releaseDependents (y # rest) (deg, q) = releaseDependents rest (?deg1, ?q1)"
    by (simp add: degOf_def Let_def)
  have ykey: "y \<in> set (map fst deg)" using Cons.prems(1) by simp
  have keys1: "map fst ?deg1 = map fst deg" using ykey by (rule keys_update_present)
  have cur: "1 + int (count_list rest y) \<le> ?cur" using Cons.prems(2) by simp
  have p1: "set rest \<subseteq> set (map fst ?deg1)" using Cons.prems(1) keys1 by simp
  have p2: "\<forall>z\<in>set rest. int (count_list rest z) \<le> degOf ?deg1 z"
  proof
    fix z assume z: "z \<in> set rest"
    show "int (count_list rest z) \<le> degOf ?deg1 z"
    proof (cases "z = y")
      case True
      then show ?thesis using cur by (simp add: degOf_update)
    next
      case False
      have "int (count_list (y # rest) z) \<le> degOf deg z" using Cons.prems(2) z by simp
      with False show ?thesis by (simp add: degOf_update)
    qed
  qed
  from Cons.IH[OF p1 p2, of ?q1] obtain news where
    n1: "releaseDependents rest (?deg1, ?q1) = (fst (releaseDependents rest (?deg1, ?q1)), ?q1 @ news)"
    and n2: "distinct news"
    and n3: "set news = {z \<in> set rest. degOf ?deg1 z = int (count_list rest z)}"
    and n4: "\<forall>z. degOf (fst (releaseDependents rest (?deg1, ?q1))) z = degOf ?deg1 z - int (count_list rest z)"
    and n5: "map fst (fst (releaseDependents rest (?deg1, ?q1))) = map fst ?deg1"
    by blast
  show ?case
  proof (cases "?cur - 1 = 0")
    case True
    then have c0: "count_list rest y = 0" using cur by simp
    then have ynot: "y \<notin> set rest" by (simp add: count_list_0_iff)
    let ?news = "y # news"
    have a: "releaseDependents (y # rest) (deg, q) = (fst (releaseDependents (y # rest) (deg, q)), q @ ?news)"
      using n1 True step by simp
    have b: "distinct ?news" using n2 n3 ynot by auto
    have c: "set ?news = {z \<in> set (y # rest). degOf deg z = int (count_list (y # rest) z)}"
      using n3 True c0 ynot by (auto simp: degOf_update)
    have d: "\<forall>z. degOf (fst (releaseDependents (y # rest) (deg, q))) z = degOf deg z - int (count_list (y # rest) z)"
      using n4 step by (auto simp: degOf_update)
    have e: "map fst (fst (releaseDependents (y # rest) (deg, q))) = map fst deg"
      using n5 keys1 step by simp
    show ?thesis using a b c d e by blast
  next
    case False
    have a: "releaseDependents (y # rest) (deg, q) = (fst (releaseDependents (y # rest) (deg, q)), q @ news)"
      using n1 False step by simp
    have c: "set news = {z \<in> set (y # rest). degOf deg z = int (count_list (y # rest) z)}"
    proof -
      have "y \<in> set rest" if "degOf deg y = 1 + int (count_list rest y)"
        using that False by (cases "count_list rest y = 0") (auto simp: count_list_0_iff)
      then show ?thesis using n3 by (auto simp: degOf_update)
    qed
    have d: "\<forall>z. degOf (fst (releaseDependents (y # rest) (deg, q))) z = degOf deg z - int (count_list (y # rest) z)"
      using n4 step by (auto simp: degOf_update)
    have e: "map fst (fst (releaseDependents (y # rest) (deg, q))) = map fst deg"
      using n5 keys1 step by simp
    show ?thesis using a n2 c d e by blast
  qed
qed

lemma count_list_map_filter:
  "count_list (map f xs) y = length (filter (\<lambda>e. f e = y) xs)"
  by (induction xs) auto

lemma length_filter_split:
  "length (filter P xs) = length (filter (\<lambda>e. P e \<and> Q e) xs) + length (filter (\<lambda>e. P e \<and> \<not> Q e) xs)"
  by (induction xs) auto

lemma snoc_decomp:
  "xs @ [x] = pre @ y # post \<Longrightarrow> (post = [] \<and> pre = xs \<and> y = x) \<or> (\<exists>post'. post = post' @ [x] \<and> xs = pre @ y # post')"
  by (cases post rule: rev_cases) auto

lemma kahn_inv_step:
  assumes inv: "kahn_inv K E deg (x # q) doneL"
    and ok: "graph_ok K E g"
    and rel: "releaseDependents (dependentsOf g x) (deg, q) = (deg', q')"
  shows "kahn_inv K E deg' q' (doneL @ [x]) \<and> prefix q q'"
proof -
  let ?ds = "dependentsOf g x"
  from inv have dist: "distinct (doneL @ x # q)" and sub: "set (doneL @ x # q) \<subseteq> set K"
    and keys: "map fst deg = K"
    and cnt: "\<forall>y\<in>set K. degOf deg y = int (length (filter (\<lambda>e. snd e = y \<and> fst e \<notin> set doneL) E))"
    and zero: "\<forall>y\<in>set K. y \<in> set (doneL @ x # q) \<longleftrightarrow> degOf deg y = 0"
    and ord: "\<forall>pre y post. doneL = pre @ y # post \<longrightarrow> (\<forall>e\<in>set E. snd e = y \<longrightarrow> fst e \<in> set pre)"
    by (simp_all add: kahn_inv_def)
  have xK: "x \<in> set K" and xnd: "x \<notin> set doneL" using sub dist by auto
  have ds: "?ds = map snd (filter (\<lambda>e. fst e = x) E)" using ok xK by (simp add: graph_ok_def)
  have dsK: "set ?ds \<subseteq> set K" using ok ds by (auto simp: graph_ok_def)
  have cl: "int (count_list ?ds y) = int (length (filter (\<lambda>e. snd e = y \<and> fst e = x) E))" for y
    by (simp add: ds count_list_map_filter conj_commute)
  have split: "length (filter (\<lambda>e. snd e = y \<and> fst e \<notin> set doneL) E)
      = length (filter (\<lambda>e. snd e = y \<and> fst e = x) E)
        + length (filter (\<lambda>e. snd e = y \<and> fst e \<notin> set (doneL @ [x])) E)" for y
  proof -
    have 1: "(\<lambda>e. (snd e = y \<and> fst e \<notin> set doneL) \<and> fst e = x) = (\<lambda>e. snd e = y \<and> fst e = x)"
      using xnd by auto
    have 2: "(\<lambda>e. (snd e = y \<and> fst e \<notin> set doneL) \<and> \<not> fst e = x) = (\<lambda>e. snd e = y \<and> fst e \<notin> set (doneL @ [x]))"
      by auto
    show ?thesis
      using length_filter_split[of "\<lambda>e. snd e = y \<and> fst e \<notin> set doneL" E "\<lambda>e. fst e = x"]
      unfolding 1 2 .
  qed
  have pre1: "set ?ds \<subseteq> set (map fst deg)" using dsK keys by simp
  have pre2: "\<forall>y\<in>set ?ds. int (count_list ?ds y) \<le> degOf deg y"
  proof
    fix y assume "y \<in> set ?ds"
    then have "y \<in> set K" using dsK by auto
    then show "int (count_list ?ds y) \<le> degOf deg y" using cnt cl[of y] split[of y] by simp
  qed
  from releaseDependents_spec[OF pre1 pre2, of q] rel obtain news where
    q': "q' = q @ news" and n2: "distinct news"
    and n3: "set news = {y \<in> set ?ds. degOf deg y = int (count_list ?ds y)}"
    and n4: "\<forall>y. degOf deg' y = degOf deg y - int (count_list ?ds y)"
    and n5: "map fst deg' = map fst deg"
    by auto
  have zero_x: "degOf deg x = 0" using zero xK by auto
  have newdeg: "degOf deg' y = int (length (filter (\<lambda>e. snd e = y \<and> fst e \<notin> set (doneL @ [x])) E))"
    if "y \<in> set K" for y
    using n4 cnt that cl[of y] split[of y] by simp
  have news_pos: "1 \<le> degOf deg y" if "y \<in> set news" for y
  proof -
    from that n3 have m: "y \<in> set ?ds" and e: "degOf deg y = int (count_list ?ds y)" by auto
    from m have "count_list ?ds y \<noteq> 0" by (simp add: count_list_0_iff)
    with e show ?thesis by simp
  qed
  have news_new: "y \<in> set news \<Longrightarrow> y \<notin> set (doneL @ x # q)" for y
  proof
    assume a: "y \<in> set news" and b: "y \<in> set (doneL @ x # q)"
    from b sub have "y \<in> set K" by auto
    with b zero have "degOf deg y = 0" by blast
    with news_pos[OF a] show False by simp
  qed
  have A: "distinct ((doneL @ [x]) @ q')" using dist n2 news_new q' by auto
  have B: "set ((doneL @ [x]) @ q') \<subseteq> set K" using sub q' n3 dsK by auto
  have C: "map fst deg' = K" using n5 keys by simp
  have D: "\<forall>y\<in>set K. degOf deg' y = int (length (filter (\<lambda>e. snd e = y \<and> fst e \<notin> set (doneL @ [x])) E))"
    using newdeg by blast
  have E: "\<forall>y\<in>set K. y \<in> set ((doneL @ [x]) @ q') \<longleftrightarrow> degOf deg' y = 0"
  proof
    fix y assume yK: "y \<in> set K"
    show "y \<in> set ((doneL @ [x]) @ q') \<longleftrightarrow> degOf deg' y = 0"
    proof
      assume "y \<in> set ((doneL @ [x]) @ q')"
      then consider "y \<in> set (doneL @ x # q)" | "y \<in> set news" using q' by auto
      then show "degOf deg' y = 0"
      proof cases
        case 1
        then have z: "degOf deg y = 0" using zero yK by blast
        have "degOf deg y = int (length (filter (\<lambda>e. snd e = y \<and> fst e \<notin> set doneL) E))"
          using cnt yK by blast
        then have "int (count_list ?ds y) \<le> degOf deg y"
          unfolding cl[of y] split[of y] by simp
        with z have "int (count_list ?ds y) = 0" by simp
        with z n4 show ?thesis by simp
      next
        case 2
        then show ?thesis using n3 n4 by simp
      qed
    next
      assume z: "degOf deg' y = 0"
      then have eq: "degOf deg y = int (count_list ?ds y)" using n4 by simp
      show "y \<in> set ((doneL @ [x]) @ q')"
      proof (cases "count_list ?ds y = 0")
        case True
        then have "degOf deg y = 0" using eq by simp
        then have "y \<in> set (doneL @ x # q)" using zero yK by blast
        then show ?thesis using q' by auto
      next
        case False
        then have "y \<in> set ?ds" by (simp add: count_list_0_iff)
        then have "y \<in> set news" using n3 eq by simp
        then show ?thesis using q' by simp
      qed
    qed
  qed
  have F: "\<forall>pre y post. doneL @ [x] = pre @ y # post \<longrightarrow> (\<forall>e\<in>set E. snd e = y \<longrightarrow> fst e \<in> set pre)"
  proof (intro allI impI ballI)
    fix pre y post e
    assume d: "doneL @ [x] = pre @ y # post" and e: "e \<in> set E" and s: "snd e = y"
    from snoc_decomp[OF d] show "fst e \<in> set pre"
    proof
      assume "post = [] \<and> pre = doneL \<and> y = x"
      then have p: "pre = doneL" and yx: "y = x" by auto
      have "length (filter (\<lambda>e. snd e = x \<and> fst e \<notin> set doneL) E) = 0"
        using cnt xK zero_x by simp
      then have "\<forall>e\<in>set E. \<not> (snd e = x \<and> fst e \<notin> set doneL)"
        by (simp add: filter_empty_conv)
      then show ?thesis using e s p yx by auto
    next
      assume "\<exists>post'. post = post' @ [x] \<and> doneL = pre @ y # post'"
      then show ?thesis using ord e s by blast
    qed
  qed
  have "kahn_inv K E deg' q' (doneL @ [x])" unfolding kahn_inv_def using A B C D E F by blast
  then show ?thesis using q' by simp
qed

lemma kahn_loop:
  "graph_ok K E g \<Longrightarrow> stepMap_ok K sm \<Longrightarrow> kahn_inv K E deg queue (map step_id result) \<Longrightarrow>
     (\<exists>deg'. kahn_inv K E deg' [] (map step_id (kahn sm g deg queue result)))
     \<and> prefix (map step_id result @ queue) (map step_id (kahn sm g deg queue result))
     \<and> (\<forall>s\<in>set (kahn sm g deg queue result). s \<in> set result \<or> map_of sm (step_id s) = Some s)"
proof (induction sm g deg queue result rule: kahn.induct)
  case (1 stepMap graph inDegree result)
  then show ?case by auto
next
  case (2 stepMap graph inDegree x queue result)
  from "2.prems" have xK: "x \<in> set K" by (auto simp: kahn_inv_def)
  with "2.prems"(2) obtain s where s: "map_of stepMap x = Some s" "step_id s = x"
    by (auto simp: stepMap_ok_def)
  obtain deg1 q1 where rel: "releaseDependents (dependentsOf graph x) (inDegree, queue) = (deg1, q1)"
    by (cases "releaseDependents (dependentsOf graph x) (inDegree, queue)")
  have inv1: "kahn_inv K E deg1 q1 (map step_id (result @ [s]))" and pq: "prefix queue q1"
    using kahn_inv_step[OF "2.prems"(3) "2.prems"(1) rel] s by simp_all
  have k: "kahn stepMap graph inDegree (x # queue) result = kahn stepMap graph deg1 q1 (result @ [s])"
    using rel s by (simp add: dependentsOf_def)
  have IH: "(\<exists>deg'. kahn_inv K E deg' [] (map step_id (kahn stepMap graph deg1 q1 (result @ [s]))))
     \<and> prefix (map step_id (result @ [s]) @ q1) (map step_id (kahn stepMap graph deg1 q1 (result @ [s])))
     \<and> (\<forall>t\<in>set (kahn stepMap graph deg1 q1 (result @ [s])).
           t \<in> set (result @ [s]) \<or> map_of stepMap (step_id t) = Some t)"
    using "2.IH"[of "result @ [s]" "dependentsOf graph x" deg1 q1] s rel "2.prems"(1,2) inv1
    by (simp add: dependentsOf_def)
  from pq obtain news where q1: "q1 = queue @ news" by (auto simp: prefix_def)
  have P: "prefix (map step_id result @ x # queue) (map step_id (kahn stepMap graph deg1 q1 (result @ [s])))"
  proof -
    have "prefix (map step_id result @ x # queue) (map step_id (result @ [s]) @ q1)"
      using s q1 by (simp add: prefix_def)
    then show ?thesis using IH prefix_order.trans by blast
  qed
  have M: "\<forall>t\<in>set (kahn stepMap graph deg1 q1 (result @ [s])).
           t \<in> set result \<or> map_of stepMap (step_id t) = Some t"
    using IH s by auto
  show ?case unfolding k using IH P M by blast
qed

lemma dependentsOf_update:
  "dependentsOf (AList.update k v g) d = (if d = k then v else dependentsOf g d)"
  by (simp add: dependentsOf_def update_conv')

lemma addDependencies_spec:
  assumes "sid \<in> set (map fst deg)" "map fst g = map fst sm"
  shows "case addDependencies sm sid deps (deg, g) of
      Inl err \<Rightarrow> \<exists>d. err = MissingDependency d sid \<and> d \<in> set deps \<and> d \<notin> set (map fst sm)
    | Inr (deg', g') \<Rightarrow>
        set deps \<subseteq> set (map fst sm) \<and> map fst deg' = map fst deg \<and> map fst g' = map fst g
        \<and> (\<forall>x. degOf deg' x = degOf deg x + (if x = sid then int (length deps) else 0))
        \<and> (\<forall>d. dependentsOf g' d = dependentsOf g d @ map (\<lambda>_. sid) (filter (\<lambda>d'. d' = d) deps))"
  using assms
proof (induction deps arbitrary: deg g)
  case Nil
  then show ?case by simp
next
  case (Cons d deps)
  show ?case
  proof (cases "map_of sm d")
    case None
    then have "d \<notin> set (map fst sm)" by (simp add: map_of_eq_None_iff)
    with None show ?thesis by simp
  next
    case (Some st)
    then have dk: "d \<in> set (map fst sm)" by (metis map_of_eq_None_iff option.distinct(1) set_map)
    then have dg: "d \<in> set (map fst g)" using Cons.prems(2) by simp
    then obtain ds where ds: "map_of g d = Some ds"
      by (metis map_of_eq_None_iff not_Some_eq set_map)
    let ?deg1 = "AList.update sid (degOf deg sid + 1) deg"
    let ?g1 = "AList.update d (ds @ [sid]) g"
    have step: "addDependencies sm sid (d # deps) (deg, g) = addDependencies sm sid deps (?deg1, ?g1)"
      using Some ds by (simp add: degOf_def)
    have k1: "map fst ?deg1 = map fst deg" using Cons.prems(1) by (rule keys_update_present)
    have k2: "map fst ?g1 = map fst g" using dg by (rule keys_update_present)
    have p1: "sid \<in> set (map fst ?deg1)" using k1 Cons.prems(1) by simp
    have p2: "map fst ?g1 = map fst sm" using k2 Cons.prems(2) by simp
    have dd: "dependentsOf g d = ds" using ds by (simp add: dependentsOf_def)
    from Cons.IH[OF p1 p2] show ?thesis
      unfolding step
      using dk k1 k2 dd
      by (auto split: sum.splits simp: degOf_update dependentsOf_update)
  qed
qed

lemma edges_Cons:
  "edges (s # steps) = map (\<lambda>d. (d, step_id s)) (deps_of s) @ edges steps"
  by (simp add: edges_def)

lemma filter_snd_edges_one:
  "length (filter (\<lambda>e. snd e = x) (map (\<lambda>d. (d, sid)) ds)) = (if x = sid then length ds else 0)"
  by (induction ds) auto

lemma filter_fst_edges_one:
  "map snd (filter (\<lambda>e. fst e = d) (map (\<lambda>d. (d, sid)) ds)) = map (\<lambda>_. sid) (filter (\<lambda>d'. d' = d) ds)"
  by (induction ds) auto

lemma buildGraph_spec:
  assumes "step_id ` set steps \<subseteq> set (map fst deg)" "map fst g = map fst sm"
  shows "case buildGraph sm steps (deg, g) of
      Inl err \<Rightarrow> \<exists>s\<in>set steps. \<exists>d\<in>set (deps_of s). err = MissingDependency d (step_id s)
                   \<and> d \<notin> set (map fst sm)
    | Inr (deg', g') \<Rightarrow>
        (\<forall>s\<in>set steps. set (deps_of s) \<subseteq> set (map fst sm))
        \<and> map fst deg' = map fst deg \<and> map fst g' = map fst g
        \<and> (\<forall>x. degOf deg' x = degOf deg x + int (length (filter (\<lambda>e. snd e = x) (edges steps))))
        \<and> (\<forall>d. dependentsOf g' d = dependentsOf g d @ map snd (filter (\<lambda>e. fst e = d) (edges steps)))"
  using assms
proof (induction steps arbitrary: deg g)
  case Nil
  then show ?case by (simp add: edges_def)
next
  case (Cons s steps)
  have sk: "step_id s \<in> set (map fst deg)" using Cons.prems(1) by simp
  note A = addDependencies_spec[OF sk Cons.prems(2), of "deps_of s"]
  show ?case
  proof (cases "addDependencies sm (step_id s) (deps_of s) (deg, g)")
    case (Inl err)
    have "buildGraph sm (s # steps) (deg, g) = Inl err"
      using Inl by (cases "dependencies s") (simp_all add: deps_of_def)
    then show ?thesis using A Inl by auto
  next
    case (Inr acc)
    obtain deg1 g1 where acc: "acc = (deg1, g1)" by (cases acc)
    have b: "buildGraph sm (s # steps) (deg, g) = buildGraph sm steps (deg1, g1)"
      using Inr acc by (cases "dependencies s") (simp_all add: deps_of_def)
    from A Inr acc have
      a1: "set (deps_of s) \<subseteq> set (map fst sm)" and a2: "map fst deg1 = map fst deg"
      and a3: "map fst g1 = map fst g"
      and a4: "\<forall>x. degOf deg1 x = degOf deg x + (if x = step_id s then int (length (deps_of s)) else 0)"
      and a5: "\<forall>d. dependentsOf g1 d = dependentsOf g d @ map (\<lambda>_. step_id s) (filter (\<lambda>d'. d' = d) (deps_of s))"
      by auto
    have p1: "step_id ` set steps \<subseteq> set (map fst deg1)" using Cons.prems(1) a2 by auto
    have p2: "map fst g1 = map fst sm" using a3 Cons.prems(2) by simp
    from Cons.IH[OF p1 p2] show ?thesis
      unfolding b
      using a1 a2 a3 a4 a5
      by (auto split: sum.splits simp: edges_Cons filter_snd_edges_one filter_fst_edges_one)
  qed
qed

lemma keys_update:
  "map fst (AList.update k v al) = (if k \<in> set (map fst al) then map fst al else map fst al @ [k])"
  by (simp add: update_keys image_iff)

lemma initMaps_snoc:
  "initMaps (steps @ [s]) =
     (case initMaps steps of (sm, deg, g) \<Rightarrow>
        (AList.update (step_id s) s sm, AList.update (step_id s) 0 deg, AList.update (step_id s) [] g))"
  by (simp add: initMaps_def split: prod.splits)

lemma initMaps_Nil: "initMaps [] = ([], [], [])"
  by (simp add: initMaps_def)

lemma initMaps_spec:
  "case initMaps steps of (sm, deg, g) \<Rightarrow>
     map fst deg = map fst sm \<and> map fst g = map fst sm \<and> distinct (map fst sm)
     \<and> set (map fst sm) = step_id ` set steps
     \<and> (\<forall>x\<in>set (map fst sm). degOf deg x = 0 \<and> dependentsOf g x = [])
     \<and> (\<forall>x\<in>set (map fst sm). \<exists>s\<in>set steps. map_of sm x = Some s \<and> step_id s = x)
     \<and> (distinct (map step_id steps) \<longrightarrow>
          map fst sm = map step_id steps \<and> (\<forall>s\<in>set steps. map_of sm (step_id s) = Some s))"
proof (induction steps rule: rev_induct)
  case Nil
  then show ?case by (simp add: initMaps_Nil)
next
  case (snoc s steps)
  obtain sm deg g where i: "initMaps steps = (sm, deg, g)" by (cases "initMaps steps") auto
  from snoc[unfolded i prod.case] have
    h1: "map fst deg = map fst sm" and h2: "map fst g = map fst sm" and h3: "distinct (map fst sm)"
    and h4: "set (map fst sm) = step_id ` set steps"
    and h5: "\<forall>x\<in>set (map fst sm). degOf deg x = 0 \<and> dependentsOf g x = []"
    and h6: "\<forall>x\<in>set (map fst sm). \<exists>s\<in>set steps. map_of sm x = Some s \<and> step_id s = x"
    and h7: "distinct (map step_id steps) \<longrightarrow>
          map fst sm = map step_id steps \<and> (\<forall>s\<in>set steps. map_of sm (step_id s) = Some s)"
    by blast+
  let ?k = "step_id s"
  note keys = keys_update
  have c1: "map fst (AList.update ?k 0 deg) = map fst (AList.update ?k s sm)"
    using h1 by (simp add: keys)
  have c2: "map fst (AList.update ?k [] g) = map fst (AList.update ?k s sm)"
    using h2 by (simp add: keys)
  have c3: "distinct (map fst (AList.update ?k s sm))" using h3 by (rule distinct_update)
  have c4: "set (map fst (AList.update ?k s sm)) = step_id ` set (steps @ [s])"
    using h4 by (auto simp: keys)
  have c5: "\<forall>x\<in>set (map fst (AList.update ?k s sm)).
      degOf (AList.update ?k 0 deg) x = 0 \<and> dependentsOf (AList.update ?k [] g) x = []"
    using h5 by (auto simp: keys degOf_update dependentsOf_update split: if_splits)
  have c6: "\<forall>x\<in>set (map fst (AList.update ?k s sm)).
      \<exists>t\<in>set (steps @ [s]). map_of (AList.update ?k s sm) x = Some t \<and> step_id t = x"
    using h6 by (auto simp: keys update_conv' split: if_splits)
  have c7: "distinct (map step_id (steps @ [s])) \<longrightarrow>
      map fst (AList.update ?k s sm) = map step_id (steps @ [s])
      \<and> (\<forall>t\<in>set (steps @ [s]). map_of (AList.update ?k s sm) (step_id t) = Some t)"
  proof
    assume d: "distinct (map step_id (steps @ [s]))"
    then have d1: "distinct (map step_id steps)" and d2: "?k \<notin> step_id ` set steps" by auto
    from h7 d1 have e1: "map fst sm = map step_id steps"
      and e2: "\<forall>t\<in>set steps. map_of sm (step_id t) = Some t" by auto
    have "?k \<notin> set (map fst sm)" using d2 h4 by simp
    then have "map fst (AList.update ?k s sm) = map step_id (steps @ [s])"
      using e1 by (simp add: keys)
    moreover have "\<forall>t\<in>set (steps @ [s]). map_of (AList.update ?k s sm) (step_id t) = Some t"
    proof
      fix t assume t: "t \<in> set (steps @ [s])"
      show "map_of (AList.update ?k s sm) (step_id t) = Some t"
      proof (cases "t \<in> set steps")
        case True
        then have "step_id t \<noteq> ?k" using d2 by (metis imageI)
        then show ?thesis using e2 True by (simp add: update_conv')
      next
        case False
        then have "t = s" using t by simp
        then show ?thesis by (simp add: update_conv')
      qed
    qed
    ultimately show "map fst (AList.update ?k s sm) = map step_id (steps @ [s])
      \<and> (\<forall>t\<in>set (steps @ [s]). map_of (AList.update ?k s sm) (step_id t) = Some t)" by blast
  qed
  show ?case
    unfolding initMaps_snoc i prod.case using c1 c2 c3 c4 c5 c6 c7 by blast
qed

lemma initialQueue_mem:
  assumes "distinct (map fst deg)" "x \<in> set (map fst deg)"
  shows "x \<in> set (initialQueue deg) \<longleftrightarrow> degOf deg x = 0"
proof -
  from assms(2) obtain n where n: "map_of deg x = Some n"
    by (metis map_of_eq_None_iff not_Some_eq set_map)
  have "x \<in> set (initialQueue deg) \<longleftrightarrow> (x, 0) \<in> set deg"
    by (force simp: initialQueue_def)
  also have "\<dots> \<longleftrightarrow> map_of deg x = Some 0" using assms(1) by simp
  finally show ?thesis using n by (simp add: degOf_def)
qed

lemma initialQueue_distinct: "distinct (map fst deg) \<Longrightarrow> distinct (initialQueue deg)"
  unfolding initialQueue_def by (simp add: distinct_map_filter)

lemma initialQueue_subset: "set (initialQueue deg) \<subseteq> set (map fst deg)"
  by (auto simp: initialQueue_def)

lemma kahn_inv_initial:
  assumes "distinct (map fst deg)" "map fst deg = K"
    and "\<forall>x. degOf deg x = int (length (filter (\<lambda>e. snd e = x) E))"
  shows "kahn_inv K E deg (initialQueue deg) []"
  unfolding kahn_inv_def
  using assms initialQueue_mem[OF assms(1)] initialQueue_distinct[OF assms(1)] initialQueue_subset[of deg]
  by auto

lemma resolve_missing:
  assumes "\<not> closed_deps steps"
  shows "\<exists>s\<in>set steps. \<exists>d\<in>set (deps_of s).
           resolveDependencies steps = Inl (MissingDependency d (step_id s)) \<and> d \<notin> step_id ` set steps"
proof -
  obtain sm deg0 g0 where i: "initMaps steps = (sm, deg0, g0)" by (cases "initMaps steps") auto
  from initMaps_spec[of steps, unfolded i prod.case] have
    h1: "map fst deg0 = map fst sm" and h2: "map fst g0 = map fst sm"
    and h4: "set (map fst sm) = step_id ` set steps" by blast+
  have p1: "step_id ` set steps \<subseteq> set (map fst deg0)" using h1 h4 by simp
  note B = buildGraph_spec[OF p1 h2]
  show ?thesis
  proof (cases "buildGraph sm steps (deg0, g0)")
    case (Inl err)
    then have "resolveDependencies steps = Inl err" by (simp add: resolveDependencies_def i)
    with B Inl h4 show ?thesis by auto
  next
    case (Inr acc)
    with B h4 have "closed_deps steps" by (cases acc) (auto simp: closed_deps_def)
    with assms show ?thesis by simp
  qed
qed

lemma resolve_closed:
  assumes "closed_deps steps"
  shows "\<exists>sm deg0 g0 deg g deg'.
      initMaps steps = (sm, deg0, g0) \<and> buildGraph sm steps (deg0, g0) = Inr (deg, g)
      \<and> kahnOrder steps = kahn sm g deg (initialQueue deg) []
      \<and> map fst deg = map fst sm \<and> distinct (map fst sm) \<and> set (map fst sm) = step_id ` set steps
      \<and> (\<forall>x. degOf deg x = int (length (filter (\<lambda>e. snd e = x) (edges steps))))
      \<and> kahn_inv (map fst sm) (edges steps) deg' [] (map step_id (kahnOrder steps))
      \<and> prefix (initialQueue deg) (map step_id (kahnOrder steps))
      \<and> (\<forall>s\<in>set (kahnOrder steps). map_of sm (step_id s) = Some s)
      \<and> (\<forall>x\<in>set (map fst sm). \<exists>s\<in>set steps. map_of sm x = Some s \<and> step_id s = x)
      \<and> (distinct (map step_id steps) \<longrightarrow>
          map fst sm = map step_id steps \<and> (\<forall>s\<in>set steps. map_of sm (step_id s) = Some s))"
proof -
  obtain sm deg0 g0 where i: "initMaps steps = (sm, deg0, g0)" by (cases "initMaps steps") auto
  from initMaps_spec[of steps, unfolded i prod.case] have
    h1: "map fst deg0 = map fst sm" and h2: "map fst g0 = map fst sm" and h3: "distinct (map fst sm)"
    and h4: "set (map fst sm) = step_id ` set steps"
    and h5: "\<forall>x\<in>set (map fst sm). degOf deg0 x = 0 \<and> dependentsOf g0 x = []"
    and h6: "\<forall>x\<in>set (map fst sm). \<exists>s\<in>set steps. map_of sm x = Some s \<and> step_id s = x"
    and h7: "distinct (map step_id steps) \<longrightarrow>
          map fst sm = map step_id steps \<and> (\<forall>s\<in>set steps. map_of sm (step_id s) = Some s)"
    by blast+
  let ?K = "map fst sm" and ?E = "edges steps"
  have p1: "step_id ` set steps \<subseteq> set (map fst deg0)" using h1 h4 by simp
  note B = buildGraph_spec[OF p1 h2]
  have edgesK: "\<forall>e\<in>set ?E. fst e \<in> set ?K \<and> snd e \<in> set ?K"
    using assms h4 by (auto simp: edges_def closed_deps_def)
  show ?thesis
  proof (cases "buildGraph sm steps (deg0, g0)")
    case (Inl err)
    with B h4 assms show ?thesis by (auto simp: closed_deps_def)
  next
    case (Inr acc)
    obtain deg g where acc: "acc = (deg, g)" by (cases acc)
    from B Inr acc have
      b2: "map fst deg = map fst deg0" and b3: "map fst g = map fst g0"
      and b4: "\<forall>x. degOf deg x = degOf deg0 x + int (length (filter (\<lambda>e. snd e = x) ?E))"
      and b5: "\<forall>d. dependentsOf g d = dependentsOf g0 d @ map snd (filter (\<lambda>e. fst e = d) ?E)"
      by auto
    have deg0z: "degOf deg0 x = 0" for x
    proof (cases "x \<in> set ?K")
      case True then show ?thesis using h5 by blast
    next
      case False
      then have "map_of deg0 x = None" using h1 by (metis map_of_eq_None_iff set_map)
      then show ?thesis by (simp add: degOf_def)
    qed
    have degE: "\<forall>x. degOf deg x = int (length (filter (\<lambda>e. snd e = x) ?E))"
      using b4 deg0z by simp
    have kd: "map fst deg = ?K" using b2 h1 by simp
    have dk: "distinct (map fst deg)" using kd h3 by simp
    have inv0: "kahn_inv ?K ?E deg (initialQueue deg) (map step_id [])"
      using kahn_inv_initial[OF dk kd degE] by simp
    have gok: "graph_ok ?K ?E g"
      unfolding graph_ok_def using edgesK b5 h5 by simp
    have smok: "stepMap_ok ?K sm" unfolding stepMap_ok_def using h6 by blast
    have ko: "kahnOrder steps = kahn sm g deg (initialQueue deg) []"
      by (simp add: kahnOrder_def i Inr acc)
    from kahn_loop[OF gok smok inv0] obtain deg' where
      f1: "kahn_inv ?K ?E deg' [] (map step_id (kahnOrder steps))"
      and f2: "prefix (initialQueue deg) (map step_id (kahnOrder steps))"
      and f3: "\<forall>s\<in>set (kahnOrder steps). map_of sm (step_id s) = Some s"
      unfolding ko by auto
    show ?thesis
      using i Inr acc ko kd h3 h4 degE f1 f2 f3 h6 h7 by blast
  qed
qed

lemma not_list_ex_step_id:
  fixes s :: "('v, 'x, 'e) PipelineStep" and xs :: "('v, 'x, 'e) PipelineStep list"
  shows "(\<not> list_ex (\<lambda>r. step_id r = step_id s) xs) = (step_id s \<notin> step_id ` set xs)"
  by (auto simp: list_ex_iff image_iff)

lemma resolve_eq:
  assumes "closed_deps steps"
  shows "resolveDependencies steps =
     (if length (kahnOrder steps) \<noteq> length steps
      then Inl (CircularDependency
             (map step_id (filter (\<lambda>s. step_id s \<notin> step_id ` set (kahnOrder steps)) steps)))
      else Inr (kahnOrder steps))"
proof -
  from resolve_closed[OF assms] obtain sm deg0 g0 deg g where
    "initMaps steps = (sm, deg0, g0)" "buildGraph sm steps (deg0, g0) = Inr (deg, g)"
    "kahnOrder steps = kahn sm g deg (initialQueue deg) []" by blast
  then show ?thesis
    by (simp add: resolveDependencies_def Let_def not_list_ex_step_id)
qed

lemma kahnOrder_sound:
  assumes "closed_deps steps"
  shows "distinct (map step_id (kahnOrder steps))"
    and "set (kahnOrder steps) \<subseteq> set steps"
    and "length (kahnOrder steps) \<le> length steps"
    and "\<forall>pre y post. map step_id (kahnOrder steps) = pre @ y # post \<longrightarrow>
           (\<forall>e\<in>set (edges steps). snd e = y \<longrightarrow> fst e \<in> set pre)"
proof -
  from resolve_closed[OF assms] obtain sm deg' where
    k4: "set (map fst sm) = step_id ` set steps"
    and inv: "kahn_inv (map fst sm) (edges steps) deg' [] (map step_id (kahnOrder steps))"
    and f3: "\<forall>s\<in>set (kahnOrder steps). map_of sm (step_id s) = Some s"
    and h6: "\<forall>x\<in>set (map fst sm). \<exists>s\<in>set steps. map_of sm x = Some s \<and> step_id s = x"
    by blast
  from inv show d: "distinct (map step_id (kahnOrder steps))" by (simp add: kahn_inv_def)
  from inv have sub: "set (map step_id (kahnOrder steps)) \<subseteq> set (map fst sm)"
    by (simp add: kahn_inv_def)
  show ss: "set (kahnOrder steps) \<subseteq> set steps"
  proof
    fix s assume s: "s \<in> set (kahnOrder steps)"
    then have "step_id s \<in> set (map fst sm)" using sub by auto
    with h6 obtain t where "t \<in> set steps" "map_of sm (step_id s) = Some t" by blast
    with f3 s show "s \<in> set steps" by auto
  qed
  have "distinct (kahnOrder steps)" using d by (rule distinct_map[THEN iffD1, THEN conjunct1])
  then have "length (kahnOrder steps) = card (set (kahnOrder steps))"
    by (simp add: distinct_card)
  also have "\<dots> \<le> card (set steps)" using ss by (simp add: card_mono)
  also have "\<dots> \<le> length steps" by (rule card_length)
  finally show "length (kahnOrder steps) \<le> length steps" .
  from inv show "\<forall>pre y post. map step_id (kahnOrder steps) = pre @ y # post \<longrightarrow>
           (\<forall>e\<in>set (edges steps). snd e = y \<longrightarrow> fst e \<in> set pre)"
    by (simp add: kahn_inv_def)
qed

lemma kahnOrder_complete:
  fixes steps :: "('v, 'x, 'e) PipelineStep list"
  assumes c: "closed_deps steps" and a: "acyclic (set (edges steps))"
  shows "set (map step_id (kahnOrder steps)) = step_id ` set steps"
proof -
  let ?E = "edges steps" and ?D = "set (map step_id (kahnOrder steps))"
  from resolve_closed[OF c] obtain sm :: "('v, 'x, 'e) step_map" and deg' where
    k4: "set (map fst sm) = step_id ` set steps"
    and inv: "kahn_inv (map fst sm) ?E deg' [] (map step_id (kahnOrder steps))"
    by blast
  from inv have sub: "?D \<subseteq> step_id ` set steps"
    and cnt: "\<forall>x\<in>step_id ` set steps. degOf deg' x = int (length (filter (\<lambda>e. snd e = x \<and> fst e \<notin> ?D) ?E))"
    and zero: "\<forall>x\<in>step_id ` set steps. x \<in> ?D \<longleftrightarrow> degOf deg' x = 0"
    unfolding kahn_inv_def k4 by simp_all
  have wf: "wf (set ?E)" using a by (simp add: finite_acyclic_wf)
  show ?thesis
  proof (rule ccontr)
    assume "?D \<noteq> step_id ` set steps"
    then obtain x where x: "x \<in> step_id ` set steps - ?D" using sub by blast
    from wfE_min[OF wf x] obtain z where z: "z \<in> step_id ` set steps - ?D"
      and zmin: "\<And>y. (y, z) \<in> set ?E \<Longrightarrow> y \<notin> step_id ` set steps - ?D" by blast
    have "\<forall>e\<in>set ?E. \<not> (snd e = z \<and> fst e \<notin> ?D)"
    proof
      fix e assume e: "e \<in> set ?E"
      show "\<not> (snd e = z \<and> fst e \<notin> ?D)"
      proof
        assume h: "snd e = z \<and> fst e \<notin> ?D"
        then have "(fst e, z) \<in> set ?E" using e by (metis prod.collapse)
        from zmin[OF this] have "fst e \<notin> step_id ` set steps - ?D" .
        moreover have "fst e \<in> step_id ` set steps"
        proof -
          from e obtain s d where "s \<in> set steps" "d \<in> set (deps_of s)" "e = (d, step_id s)"
            by (auto simp: edges_def)
          then have "d \<in> step_id ` set steps" using c unfolding closed_deps_def by blast
          then show ?thesis using \<open>e = (d, step_id s)\<close> by simp
        qed
        ultimately show False using h by blast
      qed
    qed
    then have "filter (\<lambda>e. snd e = z \<and> fst e \<notin> ?D) ?E = []" by (simp add: filter_empty_conv)
    moreover have zi: "z \<in> step_id ` set steps" using z by blast
    moreover have "degOf deg' z = int (length (filter (\<lambda>e. snd e = z \<and> fst e \<notin> ?D) ?E))"
      using cnt zi by (rule bspec)
    ultimately have "degOf deg' z = 0" by simp
    moreover have "z \<in> ?D \<longleftrightarrow> degOf deg' z = 0" using zero zi by (rule bspec)
    ultimately have "z \<in> ?D" by blast
    with z show False by simp
  qed
qed




lemma no_edges_to:
  "x \<notin> step_id ` set steps \<Longrightarrow> filter (\<lambda>e. snd e = x) (edges steps) = []"
proof (induction steps)
  case Nil
  then show ?case by (simp add: edges_def)
next
  case (Cons t ts)
  then show ?case by (auto simp: edges_Cons filter_empty_conv)
qed

lemma edges_count_distinct:
  "distinct (map step_id steps) \<Longrightarrow> s \<in> set steps \<Longrightarrow>
   length (filter (\<lambda>e. snd e = step_id s) (edges steps)) = length (deps_of s)"
proof (induction steps)
  case Nil
  then show ?case by simp
next
  case (Cons t ts)
  show ?case
  proof (cases "s = t")
    case True
    then have "step_id s \<notin> step_id ` set ts" using Cons.prems(1) by simp
    from no_edges_to[OF this] True show ?thesis
      by (simp add: edges_Cons filter_snd_edges_one)
  next
    case False
    then have m: "s \<in> set ts" using Cons.prems(2) by simp
    then have "step_id s \<noteq> step_id t" using Cons.prems(1) by (auto simp: image_iff)
    then show ?thesis using Cons.IH m Cons.prems(1)
      by (simp add: edges_Cons filter_snd_edges_one)
  qed
qed

lemma initialQueue_filter:
  assumes "distinct (map fst deg)"
  shows "initialQueue deg = filter (\<lambda>k. degOf deg k = 0) (map fst deg)"
proof -
  have "filter (\<lambda>(k, d). d = 0) deg = filter (\<lambda>p. degOf deg (fst p) = 0) deg"
  proof (rule filter_cong[OF refl])
    fix p assume "p \<in> set deg"
    then have "map_of deg (fst p) = Some (snd p)" using assms by simp
    then show "(case p of (k, d) \<Rightarrow> d = 0) = (degOf deg (fst p) = 0)"
      by (cases p) (simp add: degOf_def)
  qed
  then show ?thesis by (simp add: initialQueue_def filter_map comp_def)
qed

lemma resolve_valid_dag:
  fixes steps :: "('v, 'x, 'e) PipelineStep list"
  assumes v: "valid_dag steps"
  shows "resolveDependencies steps = Inr (kahnOrder steps)"
    and "mset (kahnOrder steps) = mset steps"
    and "\<forall>i<length (kahnOrder steps). \<forall>d\<in>set (deps_of (kahnOrder steps ! i)).
           \<exists>j<i. step_id (kahnOrder steps ! j) = d"
    and "prefix (filter (\<lambda>s. deps_of s = []) steps) (kahnOrder steps)"
proof -
  let ?r = "kahnOrder steps"
  from v have dist: "distinct (map step_id steps)" and c: "closed_deps steps"
    and a: "acyclic (set (edges steps))" by (simp_all add: valid_dag_def)
  note snd = kahnOrder_sound[OF c]
  have ids: "set (map step_id ?r) = step_id ` set steps" by (rule kahnOrder_complete[OF c a])
  have dr: "distinct ?r" using snd(1) by (rule distinct_map[THEN iffD1, THEN conjunct1])
  have ds: "distinct steps" using dist by (rule distinct_map[THEN iffD1, THEN conjunct1])
  have "length ?r = card (set (map step_id ?r))" using snd(1) by (simp add: distinct_card del: set_map)
  also have "\<dots> = card (set (map step_id steps))" using ids by simp
  also have "\<dots> = length steps" using dist by (simp add: distinct_card del: set_map)
  finally have len: "length ?r = length steps" .
  show res: "resolveDependencies steps = Inr ?r" using resolve_eq[OF c] len by simp
  have "card (set ?r) = card (set steps)" using len dr ds by (simp add: distinct_card)
  then have seteq: "set ?r = set steps" using snd(2) by (simp add: card_subset_eq)
  show "mset ?r = mset steps" using seteq dr ds by (simp add: set_eq_iff_mset_eq_distinct)
  show "\<forall>i<length ?r. \<forall>d\<in>set (deps_of (?r ! i)). \<exists>j<i. step_id (?r ! j) = d"
  proof (intro allI impI ballI)
    fix i d assume i: "i < length ?r" and d: "d \<in> set (deps_of (?r ! i))"
    have mem: "?r ! i \<in> set steps" using i seteq by (metis nth_mem)
    have e: "(d, step_id (?r ! i)) \<in> set (edges steps)"
      using mem d by (force simp: edges_def)
    have dec: "map step_id ?r = take i (map step_id ?r) @ step_id (?r ! i) # drop (Suc i) (map step_id ?r)"
      using id_take_nth_drop[of i "map step_id ?r"] i by simp
    from snd(4) dec e have "d \<in> set (take i (map step_id ?r))" by (metis fst_conv snd_conv)
    then obtain j where "j < i" "j < length ?r" "map step_id ?r ! j = d"
      by (auto simp: in_set_conv_nth)
    then show "\<exists>j<i. step_id (?r ! j) = d" by auto
  qed
  from resolve_closed[OF c] obtain sm :: "('v, 'x, 'e) step_map" and deg where
    kd: "map fst deg = map fst sm" and dk: "distinct (map fst sm)"
    and degE: "\<forall>x. degOf deg x = int (length (filter (\<lambda>e. snd e = x) (edges steps)))"
    and pre: "prefix (initialQueue deg) (map step_id ?r)"
    and f3: "\<forall>s\<in>set ?r. map_of sm (step_id s) = Some s"
    and h7: "distinct (map step_id steps) \<longrightarrow>
          map fst sm = map step_id steps \<and> (\<forall>s\<in>set steps. map_of sm (step_id s) = Some s)"
    by blast
  from h7 dist have ks: "map fst sm = map step_id steps"
    and ms: "\<forall>s\<in>set steps. map_of sm (step_id s) = Some s" by auto
  have "initialQueue deg = filter (\<lambda>k. degOf deg k = 0) (map step_id steps)"
    using initialQueue_filter[of deg] kd dk ks by simp
  also have "\<dots> = map step_id (filter (\<lambda>s. degOf deg (step_id s) = 0) steps)"
    by (simp add: filter_map comp_def)
  also have "filter (\<lambda>s. degOf deg (step_id s) = 0) steps = filter (\<lambda>s. deps_of s = []) steps"
  proof (rule filter_cong[OF refl])
    fix s assume "s \<in> set steps"
    from edges_count_distinct[OF dist this] degE
    show "(degOf deg (step_id s) = 0) = (deps_of s = [])" by simp
  qed
  finally have iq: "initialQueue deg = map step_id (filter (\<lambda>s. deps_of s = []) steps)" .
  let ?get = "\<lambda>x. the (map_of sm x)"
  have r1: "map ?get (map step_id ?r) = ?r" using f3 by (auto intro!: map_idI)
  have r2: "map ?get (map step_id (filter (\<lambda>s. deps_of s = []) steps)) = filter (\<lambda>s. deps_of s = []) steps"
    using ms by (auto intro!: map_idI)
  from pre have "prefix (map ?get (initialQueue deg)) (map ?get (map step_id ?r))"
    by (rule map_mono_prefix)
  then show "prefix (filter (\<lambda>s. deps_of s = []) steps) ?r"
    unfolding iq r1 r2 .
qed

lemmas resolve_eval = resolveDependencies_def initMaps_def initialQueue_def Let_def plainStep_def

lemma abc_resolve:
  "resolveDependencies (abc_steps bA bB bC)
     = Inr [plainStep ''A'' [] bA, plainStep ''B'' [''A''] bB, plainStep ''C'' [''B''] bC]"
  by (simp add: resolve_eval abc_steps_def)


lemma acyclic_by_rank:
  assumes "\<forall>e\<in>set es. rank (fst e) < (rank (snd e) :: nat)"
  shows "acyclic (set es)"
proof -
  have "set es \<subseteq> inv_image less_than rank" using assms by auto
  moreover have "wf (inv_image less_than rank)" by simp
  ultimately have "wf (set es)" by (rule wf_subset[rotated])
  then show ?thesis by (rule wf_acyclic)
qed

lemma abc_valid: "valid_dag (abc_steps bA bB bC)"
proof -
  have e: "edges (abc_steps bA bB bC) = [(''B'', ''C''), (''A'', ''B'')]"
    by (simp add: edges_def abc_steps_def plainStep_def deps_of_def)
  have "acyclic (set (edges (abc_steps bA bB bC)))"
    unfolding e by (rule acyclic_by_rank[where rank = "\<lambda>s. if s = ''A'' then 0 else if s = ''B'' then 1 else 2"]) simp
  then show ?thesis
    by (simp add: valid_dag_def closed_deps_def abc_steps_def plainStep_def deps_of_def)
qed




lemma resolve_failure_runs_nothing:
  assumes "resolveDependencies steps = Inl err"
  shows "outcome (runner_run cfg lc steps opts out) = Inl err
    \<and> snd (finalState (runner_run cfg lc steps opts out)) = []
    \<and> outcome (runner_resume cfg lc steps state opts out) = Inl err
    \<and> snd (finalState (runner_resume cfg lc steps state opts out)) = []"
  using assms by (simp add: runner_run_def runner_resume_def rejectRun_def Let_def)

lemma cycle_resolve: "resolveDependencies cycle_steps = Inl (CircularDependency [''A'', ''B''])"
  by (simp add: resolve_eval cycle_steps_def)

lemma missing_resolve: "resolveDependencies missing_steps = Inl (MissingDependency ''Z'' ''A'')"
  by (simp add: resolve_eval missing_steps_def)

text \<open>
  Claim C2. Resolution fails as a whole. If some dependency is not the id of a supplied step,
  the result is the missing-dependency error, which names that dependency and the step that
  declares it; nothing is assumed about cycles, so this check comes first. Otherwise the
  sequence built by the loop is never longer than the input; if it is shorter, the result is
  the circular-dependency error with the ids of the supplied steps that are not in the
  sequence, and if it has the same length, the result is the sequence. Whenever resolution
  fails, \<^verbatim>\<open>run\<close> and \<^verbatim>\<open>resume\<close> reject with that error and have made no call: no body
  and no hook has run. Two steps that depend on each other give the circular-dependency
  error listing both.
\<close>

theorem resolution_failures:
  fixes steps :: "('v, 'x, 'e) PipelineStep list"
  shows "(\<not> closed_deps steps \<longrightarrow>
           (\<exists>s\<in>set steps. \<exists>d\<in>set (deps_of s). d \<notin> step_id ` set steps
              \<and> resolveDependencies steps = Inl (MissingDependency d (step_id s))))
    \<and> (closed_deps steps \<longrightarrow>
           length (kahnOrder steps) \<le> length steps
           \<and> (length (kahnOrder steps) < length steps \<longrightarrow>
                resolveDependencies steps =
                  Inl (CircularDependency
                         (map step_id (filter (\<lambda>s. step_id s \<notin> step_id ` set (kahnOrder steps)) steps))))
           \<and> (length (kahnOrder steps) = length steps \<longrightarrow>
                resolveDependencies steps = Inr (kahnOrder steps)))
    \<and> (resolveDependencies steps = Inl err \<longrightarrow>
           outcome (runner_run cfg lc steps opts out) = Inl err
           \<and> bodiesRun (snd (finalState (runner_run cfg lc steps opts out))) = []
           \<and> snd (finalState (runner_run cfg lc steps opts out)) = []
           \<and> outcome (runner_resume cfg lc steps state opts out) = Inl err
           \<and> snd (finalState (runner_resume cfg lc steps state opts out)) = [])
    \<and> resolveDependencies
          [plainStep ''A'' [''B''] bA, plainStep ''B'' [''A''] bB :: ('v, 'x, 'e) PipelineStep]
        = Inl (CircularDependency [''A'', ''B''])"
proof -
  have 1: "\<not> closed_deps steps \<longrightarrow>
           (\<exists>s\<in>set steps. \<exists>d\<in>set (deps_of s). d \<notin> step_id ` set steps
              \<and> resolveDependencies steps = Inl (MissingDependency d (step_id s)))"
    using resolve_missing[of steps] by blast
  have 2: "closed_deps steps \<longrightarrow>
           length (kahnOrder steps) \<le> length steps
           \<and> (length (kahnOrder steps) < length steps \<longrightarrow>
                resolveDependencies steps =
                  Inl (CircularDependency
                         (map step_id (filter (\<lambda>s. step_id s \<notin> step_id ` set (kahnOrder steps)) steps))))
           \<and> (length (kahnOrder steps) = length steps \<longrightarrow>
                resolveDependencies steps = Inr (kahnOrder steps))"
    using kahnOrder_sound(3)[of steps] resolve_eq[of steps] by simp
  have 3: "resolveDependencies steps = Inl err \<longrightarrow>
           outcome (runner_run cfg lc steps opts out) = Inl err
           \<and> bodiesRun (snd (finalState (runner_run cfg lc steps opts out))) = []
           \<and> snd (finalState (runner_run cfg lc steps opts out)) = []
           \<and> outcome (runner_resume cfg lc steps state opts out) = Inl err
           \<and> snd (finalState (runner_resume cfg lc steps state opts out)) = []"
    using resolve_failure_runs_nothing[of steps err cfg lc opts out state] by simp
  have 4: "resolveDependencies
          [plainStep ''A'' [''B''] bA, plainStep ''B'' [''A''] bB :: ('v, 'x, 'e) PipelineStep]
        = Inl (CircularDependency [''A'', ''B''])"
    by (simp add: resolve_eval)
  show ?thesis using 1 2 3 4 by blast
qed

lemma closed_cycle: "closed_deps cycle_steps"
  by (simp add: closed_deps_def cycle_steps_def plainStep_def deps_of_def)

lemma not_closed_missing: "\<not> closed_deps missing_steps"
  by (auto simp: closed_deps_def missing_steps_def plainStep_def deps_of_def)

lemma kahnOrder_cycle: "kahnOrder cycle_steps = []"
  by (simp add: kahnOrder_def initMaps_def initialQueue_def cycle_steps_def plainStep_def)

theorem resolution_failures_witness:
  "\<not> closed_deps missing_steps
   \<and> resolveDependencies missing_steps = Inl (MissingDependency ''Z'' ''A'')
   \<and> closed_deps cycle_steps
   \<and> length (kahnOrder cycle_steps) < length cycle_steps
   \<and> resolveDependencies cycle_steps = Inl (CircularDependency [''A'', ''B''])
   \<and> outcome (runner_run devConfig noLifecycle cycle_steps defaultOptions ())
       = Inl (CircularDependency [''A'', ''B''])
   \<and> snd (finalState (runner_run devConfig noLifecycle cycle_steps defaultOptions ())) = []
   \<and> closed_deps (abc_steps (returning id) (returning id) (returning id) :: (unit, unit, unit) PipelineStep list)
   \<and> length (kahnOrder (abc_steps (returning id) (returning id) (returning id) :: (unit, unit, unit) PipelineStep list))
       = length (abc_steps (returning id) (returning id) (returning id) :: (unit, unit, unit) PipelineStep list)"
proof -
  let ?abc = "abc_steps (returning id) (returning id) (returning id) :: (unit, unit, unit) PipelineStep list"
  note m = resolution_failures[of missing_steps "MissingDependency ''Z'' ''A''" devConfig noLifecycle defaultOptions "()"]
  note c = resolution_failures[of cycle_steps "CircularDependency [''A'', ''B'']" devConfig noLifecycle defaultOptions "()"]
  note a = resolution_failures[of ?abc "CircularDependency []" devConfig noLifecycle defaultOptions "()"]
  have l: "length (kahnOrder cycle_steps) < length cycle_steps"
    by (simp add: kahnOrder_cycle) (simp add: cycle_steps_def)
  have va: "valid_dag ?abc" by (rule abc_valid)
  have ca: "closed_deps ?abc" using va by (simp add: valid_dag_def)
  have la: "length (kahnOrder ?abc) = length ?abc"
    using resolve_valid_dag(2)[OF va] by (metis size_mset)
  have r1: "resolveDependencies cycle_steps = Inl (CircularDependency [''A'', ''B''])"
    using c closed_cycle l cycle_resolve by simp
  have r2: "outcome (runner_run devConfig noLifecycle cycle_steps defaultOptions ())
       = Inl (CircularDependency [''A'', ''B''])"
     and r3: "snd (finalState (runner_run devConfig noLifecycle cycle_steps defaultOptions ())) = []"
    using c r1 by blast+
  have r4: "resolveDependencies missing_steps = Inl (MissingDependency ''Z'' ''A'')"
    using m not_closed_missing missing_resolve by simp
  have r5: "resolveDependencies ?abc = Inr (kahnOrder ?abc)" using a ca la by blast
  show ?thesis
    using not_closed_missing r4 closed_cycle l r1 r2 r3 ca la
    by (intro conjI) assumption+
qed

text \<open>
  Claim C8. \<^verbatim>\<open>executeStep\<close> returns without a thrown value exactly when the runner's
  \<^verbatim>\<open>beforeStep\<close>, the step's \<^verbatim>\<open>beforeStep\<close>, the body, the runner's \<^verbatim>\<open>afterStep\<close> and the
  step's \<^verbatim>\<open>afterStep\<close> all return normally when run in this order, each on the context
  that the one before it has left, an absent hook leaving the context as it is; the
  context that \<^verbatim>\<open>executeStep\<close> leaves is the one left by the last of them, and the calls
  it has made are these five, in this order, without those of the absent hooks. In a loop
  of \<^verbatim>\<open>run\<close> or \<^verbatim>\<open>resume\<close> that ends without a thrown value, every step is executed in
  this way on the context that the steps before it have left.
\<close>

theorem hook_order_on_success:
  fixes lc :: "('v, 'x, 'e) RunnerLifecycle"
  shows "(executeStep lc step idx n (c0, log) = (None, (c5, log')) \<longleftrightarrow>
            (\<exists>c1 c2 c3 c4.
               hookResult (lifecycleBeforeStep lc)
                 \<lparr>evStep = step_id step, evStepIndex = idx, evTotalSteps = n\<rparr> c0 = (None, c1)
             \<and> hookResult (beforeStep step)
                 \<lparr>evStep = step_id step, evStepIndex = idx, evTotalSteps = n\<rparr> c1 = (None, c2)
             \<and> run step c2 = (None, c3)
             \<and> hookResult (lifecycleAfterStep lc)
                 \<lparr>evStep = step_id step, evStepIndex = idx, evTotalSteps = n\<rparr> c3 = (None, c4)
             \<and> hookResult (afterStep step)
                 \<lparr>evStep = step_id step, evStepIndex = idx, evTotalSteps = n\<rparr> c4 = (None, c5))
            \<and> log' = log @ successCalls lc step
                        \<lparr>evStep = step_id step, evStepIndex = idx, evTotalSteps = n\<rparr>)
    \<and> (thrown (runSteps lc n idx (pre @ step # post) st completed failed) = None \<longrightarrow>
            executeStep lc step (idx + int (length pre)) n
              (exitState (runSteps lc n idx pre st completed failed))
            = (None, exitState (runSteps lc n idx (pre @ [step]) st completed failed))
          \<and> snd (exitState (runSteps lc n idx (pre @ step # post) st completed failed))
              = snd st @ successLog lc n idx (pre @ step # post))
    \<and> (lifecycleBeforeStep lc \<noteq> None \<and> beforeStep step \<noteq> None
         \<and> lifecycleAfterStep lc \<noteq> None \<and> afterStep step \<noteq> None \<longrightarrow>
            successCalls lc step ev =
              [BeforeStep RunnerLevel ev, BeforeStep StepLevel ev, RunBody (step_id step),
               AfterStep RunnerLevel ev, AfterStep StepLevel ev])"
proof -
  note 1 = executeStep_success[of lc step idx n c0 log c5 log']
  have 2: "thrown (runSteps lc n idx (pre @ step # post) st completed failed) = None \<longrightarrow>
            executeStep lc step (idx + int (length pre)) n
              (exitState (runSteps lc n idx pre st completed failed))
            = (None, exitState (runSteps lc n idx (pre @ [step]) st completed failed))
          \<and> snd (exitState (runSteps lc n idx (pre @ step # post) st completed failed))
              = snd st @ successLog lc n idx (pre @ step # post)"
    using runSteps_each_step[of lc n idx pre step post st completed failed]
      runSteps_success_log[of lc n idx "pre @ step # post" st completed failed] by blast
  have 3: "lifecycleBeforeStep lc \<noteq> None \<and> beforeStep step \<noteq> None
         \<and> lifecycleAfterStep lc \<noteq> None \<and> afterStep step \<noteq> None \<longrightarrow>
            successCalls lc step ev =
              [BeforeStep RunnerLevel ev, BeforeStep StepLevel ev, RunBody (step_id step),
               AfterStep RunnerLevel ev, AfterStep StepLevel ev]"
    by (auto simp: successCalls_def present_def)
  show ?thesis using 1 2 3 by (intro conjI) assumption+
qed

lemmas traced_eval = executeStep_def tracingHooks_def tracedStep_def andThen_def fire_def
  leaveMark_def Let_def tracedContext_def newScrapeContext_def marked_def stepA_def stepB_def
  hookResult_def

theorem hook_order_on_success_witness:
  "hookResult (lifecycleBeforeStep tracingHooks)
      \<lparr>evStep = step_id stepA, evStepIndex = 0, evTotalSteps = 2\<rparr> (marked [])
     = (None, marked [''runner beforeStep A''])
   \<and> hookResult (beforeStep stepA)
      \<lparr>evStep = step_id stepA, evStepIndex = 0, evTotalSteps = 2\<rparr> (marked [''runner beforeStep A''])
     = (None, marked [''runner beforeStep A'', ''step beforeStep A''])
   \<and> run stepA (marked [''runner beforeStep A'', ''step beforeStep A''])
     = (None, marked [''runner beforeStep A'', ''step beforeStep A'', ''body A''])
   \<and> hookResult (lifecycleAfterStep tracingHooks)
      \<lparr>evStep = step_id stepA, evStepIndex = 0, evTotalSteps = 2\<rparr>
      (marked [''runner beforeStep A'', ''step beforeStep A'', ''body A''])
     = (None, marked [''runner beforeStep A'', ''step beforeStep A'', ''body A'', ''runner afterStep A''])
   \<and> hookResult (afterStep stepA)
      \<lparr>evStep = step_id stepA, evStepIndex = 0, evTotalSteps = 2\<rparr>
      (marked [''runner beforeStep A'', ''step beforeStep A'', ''body A'', ''runner afterStep A''])
     = (None, marked [''runner beforeStep A'', ''step beforeStep A'', ''body A'',
                      ''runner afterStep A'', ''step afterStep A''])
   \<and> thrown (runSteps tracingHooks 2 0 ([stepA] @ stepB # []) (marked [], []) [] []) = None
   \<and> lifecycleBeforeStep tracingHooks \<noteq> None \<and> beforeStep stepA \<noteq> None
   \<and> lifecycleAfterStep tracingHooks \<noteq> None \<and> afterStep stepA \<noteq> None
   \<and> executeStep tracingHooks stepA 0 2 (marked [], [])
     = (None, (marked [''runner beforeStep A'', ''step beforeStep A'', ''body A'',
                       ''runner afterStep A'', ''step afterStep A''],
               [BeforeStep RunnerLevel \<lparr>evStep = ''A'', evStepIndex = 0, evTotalSteps = 2\<rparr>,
                BeforeStep StepLevel \<lparr>evStep = ''A'', evStepIndex = 0, evTotalSteps = 2\<rparr>,
                RunBody ''A'',
                AfterStep RunnerLevel \<lparr>evStep = ''A'', evStepIndex = 0, evTotalSteps = 2\<rparr>,
                AfterStep StepLevel \<lparr>evStep = ''A'', evStepIndex = 0, evTotalSteps = 2\<rparr>]))
   \<and> executeStep tracingHooks stepB 1 2
        (exitState (runSteps tracingHooks 2 0 [stepA] (marked [], []) [] []))
     = (None, exitState (runSteps tracingHooks 2 0 [stepA, stepB] (marked [], []) [] []))
   \<and> outside (fst (exitState (runSteps tracingHooks 2 0 [stepA, stepB] (marked [], []) [] [])))
     = [''runner beforeStep A'', ''step beforeStep A'', ''body A'',
        ''runner afterStep A'', ''step afterStep A'',
        ''runner beforeStep B'', ''step beforeStep B'', ''body B'',
        ''runner afterStep B'', ''step afterStep B'']
   \<and> snd (exitState (runSteps tracingHooks 2 0 [stepA, stepB] (marked [], []) [] []))
     = successLog tracingHooks 2 0 [stepA, stepB]"
proof -
  let ?ev = "\<lparr>evStep = step_id stepA, evStepIndex = 0, evTotalSteps = 2\<rparr>"
  let ?e = "\<lparr>evStep = ''A'', evStepIndex = 0, evTotalSteps = 2\<rparr>"
  let ?five = "[BeforeStep RunnerLevel ?e, BeforeStep StepLevel ?e, RunBody ''A'',
                AfterStep RunnerLevel ?e, AfterStep StepLevel ?e] :: unit call list"
  let ?m5 = "[''runner beforeStep A'', ''step beforeStep A'', ''body A'',
              ''runner afterStep A'', ''step afterStep A'']"
  have c1: "hookResult (lifecycleBeforeStep tracingHooks) ?ev (marked [])
       = (None, marked [''runner beforeStep A''])"
    and c2: "hookResult (beforeStep stepA) ?ev (marked [''runner beforeStep A''])
       = (None, marked [''runner beforeStep A'', ''step beforeStep A''])"
    and c3: "run stepA (marked [''runner beforeStep A'', ''step beforeStep A''])
       = (None, marked [''runner beforeStep A'', ''step beforeStep A'', ''body A''])"
    and c4: "hookResult (lifecycleAfterStep tracingHooks) ?ev
         (marked [''runner beforeStep A'', ''step beforeStep A'', ''body A''])
       = (None, marked [''runner beforeStep A'', ''step beforeStep A'', ''body A'', ''runner afterStep A''])"
    and c5: "hookResult (afterStep stepA) ?ev
         (marked [''runner beforeStep A'', ''step beforeStep A'', ''body A'', ''runner afterStep A''])
       = (None, marked ?m5)"
    by (simp_all add: traced_eval)
  have t: "thrown (runSteps tracingHooks 2 0 ([stepA] @ stepB # []) (marked [], []) [] []) = None"
    by (simp add: traced_eval)
  have p: "lifecycleBeforeStep tracingHooks \<noteq> None" "beforeStep stepA \<noteq> None"
      "lifecycleAfterStep tracingHooks \<noteq> None" "afterStep stepA \<noteq> None"
    by (simp_all add: traced_eval)
  have sid: "step_id stepA = ''A''" by (simp add: traced_eval)
  note h = hook_order_on_success[where lc = tracingHooks and step = stepA and idx = 0 and n = 2
      and ?c0.0 = "marked []" and log = "[]" and ?c5.0 = "marked ?m5" and log' = ?five and ev = ?e]
  note g = hook_order_on_success[where lc = tracingHooks and step = stepB and idx = 0 and n = 2
      and pre = "[stepA]" and post = "[]" and st = "(marked [], [])" and completed = "[]"
      and failed = "[]"]
  have sc: "successCalls tracingHooks stepA ?e = ?five"
    using h[THEN conjunct2, THEN conjunct2] p sid by simp
  have e1: "executeStep tracingHooks stepA 0 2 (marked [], []) = (None, (marked ?m5, ?five))"
    using h[THEN conjunct1] c1 c2 c3 c4 c5 sc sid by auto
  have e2: "executeStep tracingHooks stepB 1 2
        (exitState (runSteps tracingHooks 2 0 [stepA] (marked [], []) [] []))
     = (None, exitState (runSteps tracingHooks 2 0 [stepA, stepB] (marked [], []) [] []))"
    and l: "snd (exitState (runSteps tracingHooks 2 0 [stepA, stepB] (marked [], []) [] []))
     = successLog tracingHooks 2 0 [stepA, stepB]"
    using g[THEN conjunct2, THEN conjunct1] t by simp_all
  have o: "outside (fst (exitState (runSteps tracingHooks 2 0 [stepA, stepB] (marked [], []) [] [])))
     = ?m5 @ [''runner beforeStep B'', ''step beforeStep B'', ''body B'',
        ''runner afterStep B'', ''step afterStep B'']"
    by (simp add: traced_eval)
  show ?thesis
    using c1 c2 c3 c4 c5 t p e1 e2 o l by (intro conjI) (assumption | simp)+
qed

lemma failing_resolve:
  "resolveDependencies failing_pipeline
     = Inr [stepA, tracedStep ''B'' [''A''] (failWithMark ''body B''),
            tracedStep ''C'' [''B''] (leaveMark ''body C'')]"
  by (simp add: resolve_eval failing_pipeline_def stepA_def tracedStep_def)

lemma failing_hook_resolve:
  "resolveDependencies failing_hook_pipeline
     = Inr [stepA,
            (tracedStep ''B'' [''A''] (leaveMark ''body B''))
              \<lparr>beforeStep := Some (\<lambda>ev. failWithMark (''step beforeStep '' @ evStep ev))\<rparr>,
            tracedStep ''C'' [''B''] (leaveMark ''body C'')]"
  by (simp add: resolve_eval failing_hook_pipeline_def stepA_def tracedStep_def)

text \<open>
  Claim C3, where the code departs from it. The pipeline is supplied as C, A, B, with B
  depending on A and C on B; every hook is set, and the body of B throws. \<^verbatim>\<open>run\<close> rejects
  with the thrown value, the body of C is not run, and the local \<^verbatim>\<open>completedSteps\<close> holds
  A only; the event of the \<^verbatim>\<open>onError\<close> hooks carries the step, its index 1, the total 3 and
  the thrown value. But the hooks are called four times, not twice: the runner's and the
  step's by the \<^verbatim>\<open>catch\<close> block of \<^verbatim>\<open>executeStep\<close>, and both once more by the \<^verbatim>\<open>catch\<close>
  block of the loop, so that the step's hook runs before the runner's second call, and the
  value is propagated only after the second round. \<^verbatim>\<open>resume\<close> from index 1 does the same.
  Where it is the \<^verbatim>\<open>beforeStep\<close> hook of B that throws, only the loop catches, and the two
  hooks are called once each.
\<close>

theorem onError_fired_twice:
  "outcome (runner_run devConfig tracingHooks failing_pipeline defaultOptions []) = Inl (Thrown ())
   \<and> outside (fst (finalState (runner_run devConfig tracingHooks failing_pipeline defaultOptions [])))
       = [''runner beforeStep A'', ''step beforeStep A'', ''body A'',
          ''runner afterStep A'', ''step afterStep A'',
          ''runner beforeStep B'', ''step beforeStep B'', ''body B'',
          ''runner onError B'', ''step onError B'', ''runner onError B'', ''step onError B'']
   \<and> snd (finalState (runner_run devConfig tracingHooks failing_pipeline defaultOptions []))
       = [BeforeStep RunnerLevel \<lparr>evStep = ''A'', evStepIndex = 0, evTotalSteps = 3\<rparr>,
          BeforeStep StepLevel \<lparr>evStep = ''A'', evStepIndex = 0, evTotalSteps = 3\<rparr>,
          RunBody ''A'',
          AfterStep RunnerLevel \<lparr>evStep = ''A'', evStepIndex = 0, evTotalSteps = 3\<rparr>,
          AfterStep StepLevel \<lparr>evStep = ''A'', evStepIndex = 0, evTotalSteps = 3\<rparr>,
          BeforeStep RunnerLevel \<lparr>evStep = ''B'', evStepIndex = 1, evTotalSteps = 3\<rparr>,
          BeforeStep StepLevel \<lparr>evStep = ''B'', evStepIndex = 1, evTotalSteps = 3\<rparr>,
          RunBody ''B'',
          OnError RunnerLevel errorEventOfB, OnError StepLevel errorEventOfB,
          OnError RunnerLevel errorEventOfB, OnError StepLevel errorEventOfB]
   \<and> completedLocal (runner_run devConfig tracingHooks failing_pipeline defaultOptions []) = [''A'']
   \<and> failedLocal (runner_run devConfig tracingHooks failing_pipeline defaultOptions []) = [''B'']
   \<and> outcome (runner_resume devConfig tracingHooks failing_pipeline (resumeAt 1) defaultOptions [])
       = Inl (Thrown ())
   \<and> outside (fst (finalState
         (runner_resume devConfig tracingHooks failing_pipeline (resumeAt 1) defaultOptions [])))
       = [''runner beforeStep B'', ''step beforeStep B'', ''body B'',
          ''runner onError B'', ''step onError B'', ''runner onError B'', ''step onError B'']
   \<and> completedLocal
         (runner_resume devConfig tracingHooks failing_pipeline (resumeAt 1) defaultOptions [])
       = [''A'']
   \<and> failedLocal
         (runner_resume devConfig tracingHooks failing_pipeline (resumeAt 1) defaultOptions [])
       = [''B'']
   \<and> outcome (runner_run devConfig tracingHooks failing_hook_pipeline defaultOptions []) = Inl (Thrown ())
   \<and> outside (fst (finalState (runner_run devConfig tracingHooks failing_hook_pipeline defaultOptions [])))
       = [''runner beforeStep A'', ''step beforeStep A'', ''body A'',
          ''runner afterStep A'', ''step afterStep A'',
          ''runner beforeStep B'', ''step beforeStep B'',
          ''runner onError B'', ''step onError B'']"
proof -
  have r: "runner_run devConfig tracingHooks failing_pipeline defaultOptions [] =
      finishRun [stepA, tracedStep ''B'' [''A''] (failWithMark ''body B''),
                 tracedStep ''C'' [''B''] (leaveMark ''body C'')]
        (runSteps tracingHooks 3 0
           [stepA, tracedStep ''B'' [''A''] (failWithMark ''body B''),
            tracedStep ''C'' [''B''] (leaveMark ''body C'')]
           (newScrapeContext (mergeConfig devConfig defaultOptions) [], []) [] [])"
    by (simp add: runner_run_def failing_resolve defaultOptions_def Let_def)
  have s: "runner_resume devConfig tracingHooks failing_pipeline (resumeAt 1) defaultOptions [] =
      finishRun [stepA, tracedStep ''B'' [''A''] (failWithMark ''body B''),
                 tracedStep ''C'' [''B''] (leaveMark ''body C'')]
        (runSteps tracingHooks 3 1
           [tracedStep ''B'' [''A''] (failWithMark ''body B''),
            tracedStep ''C'' [''B''] (leaveMark ''body C'')]
           ((newScrapeContext (mergeConfig devConfig defaultOptions) [])\<lparr>data := [''seen'' \<mapsto> ()]\<rparr>, [])
           [''A''] [])"
    by (simp add: runner_resume_def failing_resolve resumeAt_def Let_def newScrapeContext_def)
  have h: "runner_run devConfig tracingHooks failing_hook_pipeline defaultOptions [] =
      finishRun [stepA,
            (tracedStep ''B'' [''A''] (leaveMark ''body B''))
              \<lparr>beforeStep := Some (\<lambda>ev. failWithMark (''step beforeStep '' @ evStep ev))\<rparr>,
            tracedStep ''C'' [''B''] (leaveMark ''body C'')]
        (runSteps tracingHooks 3 0
           [stepA,
            (tracedStep ''B'' [''A''] (leaveMark ''body B''))
              \<lparr>beforeStep := Some (\<lambda>ev. failWithMark (''step beforeStep '' @ evStep ev))\<rparr>,
            tracedStep ''C'' [''B''] (leaveMark ''body C'')]
           (newScrapeContext (mergeConfig devConfig defaultOptions) [], []) [] [])"
    by (simp add: runner_run_def failing_hook_resolve defaultOptions_def Let_def)
  show ?thesis
    unfolding r s h
    by (simp add: finishRun_def executeStep_def fireOnError_def tracingHooks_def tracedStep_def
        stepA_def andThen_def fire_def leaveMark_def failWithMark_def Let_def newScrapeContext_def
        errorEventOfB_def)
qed

text \<open>
  Claim C9. Once the order is resolved, \<^verbatim>\<open>resume\<close> with a step index below zero or not
  below the number of ordered steps rejects with the invalid-step-index error and has made
  no call. With an index inside the interval it runs the ordered steps from that index on,
  in a context whose \<open>data\<close> is the payload of the state (empty if the state has none), and
  it does not reject with that error.
\<close>

theorem resume_step_index:
  fixes lc :: "('v, 'x, 'e) RunnerLifecycle" and state :: "'v RunnerState"
  assumes "resolveDependencies steps = Inr ordered"
  shows "(stepIndex state < 0 \<or> int (length ordered) \<le> stepIndex state \<longrightarrow>
            outcome (runner_resume cfg lc steps state opts out) = Inl (InvalidStepIndex (stepIndex state))
            \<and> snd (finalState (runner_resume cfg lc steps state opts out)) = [])
    \<and> (0 \<le> stepIndex state \<and> stepIndex state < int (length ordered) \<longrightarrow>
            runner_resume cfg lc steps state opts out =
              finishRun ordered
                (runSteps lc (int (length ordered)) (stepIndex state)
                   (drop (nat (stepIndex state)) ordered)
                   (seededContext cfg opts state out, [])
                   (completedStepIds state) (failedStepIds state))
            \<and> outcome (runner_resume cfg lc steps state opts out) \<noteq> Inl (InvalidStepIndex k))"
proof -
  have ctx: "(case statePayload state of
               None \<Rightarrow> newScrapeContext (mergeConfig cfg opts) out
             | Some p \<Rightarrow> (newScrapeContext (mergeConfig cfg opts) out)
                  \<lparr>data := data (newScrapeContext (mergeConfig cfg opts) out :: ('v, 'x) ScrapeContext) ++ p\<rparr>)
      = (seededContext cfg opts state out :: ('v, 'x) ScrapeContext)"
    by (cases "statePayload state") (simp_all add: newScrapeContext_def seededContext_def)
  have 1: "stepIndex state < 0 \<or> int (length ordered) \<le> stepIndex state \<longrightarrow>
            outcome (runner_resume cfg lc steps state opts out) = Inl (InvalidStepIndex (stepIndex state))
            \<and> snd (finalState (runner_resume cfg lc steps state opts out)) = []"
    using assms by (auto simp: runner_resume_def rejectRun_def Let_def)
  have 2: "0 \<le> stepIndex state \<and> stepIndex state < int (length ordered) \<longrightarrow>
            runner_resume cfg lc steps state opts out =
              finishRun ordered
                (runSteps lc (int (length ordered)) (stepIndex state)
                   (drop (nat (stepIndex state)) ordered)
                   (seededContext cfg opts state out, [])
                   (completedStepIds state) (failedStepIds state))"
    using assms by (simp add: runner_resume_def Let_def ctx)
  have 3: "outcome (finishRun ordered ex) \<noteq> Inl (InvalidStepIndex k)" for ex :: "('v, 'x, 'e) loop_exit"
    by (cases "thrown ex") (simp_all add: finishRun_def)
  show ?thesis using 1 2 3 by metis
qed

theorem resume_step_index_witness:
  "resolveDependencies (abc_steps (returning id) (returning id) (returning id) :: (unit, unit, unit) PipelineStep list)
     = Inr [plainStep ''A'' [] (returning id), plainStep ''B'' [''A''] (returning id),
            plainStep ''C'' [''B''] (returning id)]
   \<and> (stepIndex (resumeAt 3) < 0 \<or> int (length [plainStep ''A'' [] (returning id) :: (unit, unit, unit) PipelineStep,
          plainStep ''B'' [''A''] (returning id), plainStep ''C'' [''B''] (returning id)]) \<le> stepIndex (resumeAt 3))
   \<and> outcome (runner_resume devConfig noLifecycle
         (abc_steps (returning id) (returning id) (returning id) :: (unit, unit, unit) PipelineStep list)
         (resumeAt 3) defaultOptions ()) = Inl (InvalidStepIndex 3)
   \<and> snd (finalState (runner_resume devConfig noLifecycle
         (abc_steps (returning id) (returning id) (returning id) :: (unit, unit, unit) PipelineStep list)
         (resumeAt 3) defaultOptions ())) = []
   \<and> (0 \<le> stepIndex (resumeAt 1) \<and> stepIndex (resumeAt 1) < int (length [plainStep ''A'' [] (returning id) :: (unit, unit, unit) PipelineStep,
          plainStep ''B'' [''A''] (returning id), plainStep ''C'' [''B''] (returning id)]))
   \<and> outcome (runner_resume devConfig noLifecycle
         (abc_steps (returning id) (returning id) (returning id) :: (unit, unit, unit) PipelineStep list)
         (resumeAt 1) defaultOptions ())
       = Inr \<lparr>totalSteps = 3, completedSteps = [''A'', ''B'', ''C''], failedSteps = []\<rparr>
   \<and> data (fst (finalState (runner_resume devConfig noLifecycle
         (abc_steps (returning id) (returning id) (returning id) :: (unit, unit, unit) PipelineStep list)
         (resumeAt 1) defaultOptions ()))) = [''seen'' \<mapsto> ()]
   \<and> snd (finalState (runner_resume devConfig noLifecycle
         (abc_steps (returning id) (returning id) (returning id) :: (unit, unit, unit) PipelineStep list)
         (resumeAt 1) defaultOptions ())) = [RunBody ''B'', RunBody ''C'']"
proof -
  let ?s = "abc_steps (returning id) (returning id) (returning id) :: (unit, unit, unit) PipelineStep list"
  let ?o = "[plainStep ''A'' [] (returning id) :: (unit, unit, unit) PipelineStep,
          plainStep ''B'' [''A''] (returning id), plainStep ''C'' [''B''] (returning id)]"
  have r: "resolveDependencies ?s = Inr ?o" by (rule abc_resolve)
  note out = resume_step_index[OF r, of "resumeAt 3" devConfig noLifecycle defaultOptions "()" 0]
  note ins = resume_step_index[OF r, of "resumeAt 1" devConfig noLifecycle defaultOptions "()" 1]
  have h3: "stepIndex (resumeAt 3) < 0 \<or> int (length ?o) \<le> stepIndex (resumeAt 3)"
    by (simp add: resumeAt_def)
  have h1: "0 \<le> stepIndex (resumeAt 1) \<and> stepIndex (resumeAt 1) < int (length ?o)"
    by (simp add: resumeAt_def)
  have i3: "stepIndex (resumeAt 3) = 3" by (simp add: resumeAt_def)
  from out h3 have a1: "outcome (runner_resume devConfig noLifecycle ?s (resumeAt 3) defaultOptions ())
      = Inl (InvalidStepIndex (stepIndex (resumeAt 3)))"
    and a2: "snd (finalState (runner_resume devConfig noLifecycle ?s (resumeAt 3) defaultOptions ())) = []"
    by blast+
  from ins h1 have e: "runner_resume devConfig noLifecycle ?s (resumeAt 1) defaultOptions () =
      finishRun ?o (runSteps noLifecycle (int (length ?o)) (stepIndex (resumeAt 1))
                   (drop (nat (stepIndex (resumeAt 1))) ?o)
                   (seededContext devConfig defaultOptions (resumeAt 1) (), [])
                   (completedStepIds (resumeAt 1)) (failedStepIds (resumeAt 1)))"
    by blast
  have ev: "finishRun ?o (runSteps noLifecycle (int (length ?o)) (stepIndex (resumeAt 1))
                   (drop (nat (stepIndex (resumeAt 1))) ?o)
                   (seededContext devConfig defaultOptions (resumeAt 1) (), [])
                   (completedStepIds (resumeAt 1)) (failedStepIds (resumeAt 1)))
     = \<lparr>outcome = Inr \<lparr>totalSteps = 3, completedSteps = [''A'', ''B'', ''C''], failedSteps = []\<rparr>,
        finalState = (seededContext devConfig defaultOptions (resumeAt 1) (), [RunBody ''B'', RunBody ''C'']),
        completedLocal = [''A'', ''B'', ''C''], failedLocal = []\<rparr>"
    by (simp add: resumeAt_def finishRun_def executeStep_def andThen_def fire_def noLifecycle_def
        returning_def plainStep_def Let_def)
  have d: "data (seededContext devConfig defaultOptions (resumeAt 1) () :: (unit, unit) ScrapeContext)
      = [''seen'' \<mapsto> ()]"
    by (simp add: seededContext_def resumeAt_def)
  have b1: "outcome (runner_resume devConfig noLifecycle ?s (resumeAt 1) defaultOptions ())
       = Inr \<lparr>totalSteps = 3, completedSteps = [''A'', ''B'', ''C''], failedSteps = []\<rparr>"
    and b2: "data (fst (finalState (runner_resume devConfig noLifecycle ?s (resumeAt 1) defaultOptions ())))
       = [''seen'' \<mapsto> ()]"
    and b3: "snd (finalState (runner_resume devConfig noLifecycle ?s (resumeAt 1) defaultOptions ()))
       = [RunBody ''B'', RunBody ''C'']"
    unfolding e ev using d by simp_all
  have a1': "outcome (runner_resume devConfig noLifecycle ?s (resumeAt 3) defaultOptions ())
      = Inl (InvalidStepIndex 3)" using a1 i3 by simp
  show ?thesis
    using r h3 a1' a2 h1[THEN conjunct1] h1[THEN conjunct2] b1 b2 b3
    by (intro conjI) assumption+
qed

text \<open>
  Claim C5, as the code has it. The records are taken in the order of their time stamps. The
  current step is the last record with a positive index, else the last record, else the
  empty string. \<open>stepIndex\<close> is the \<open>index\<close> field of the first record of that step (0 if
  there is none): the progress marker inside the step, not a position among the steps. The
  completed steps are the records with index 0 and the failed ones those with a non-empty
  \<open>fails\<close>. With no record the state is the empty string and 0; with the records step1 at
  index 0 and step2 at index 10 it is step2 and 10.
\<close>

theorem resume_state:
  fixes lg :: StepLogger and d :: "'p log_dir"
  defines "logs \<equiv> getAllLogs lg d"
  defines "st \<equiv> buildRunnerState lg None d"
  shows "sorted (map updatedAt logs)
    \<and> currentStepId st =
        (if filter (\<lambda>l. index l > 0) logs \<noteq> [] then stepId (last (filter (\<lambda>l. index l > 0) logs))
         else if logs \<noteq> [] then stepId (last logs) else '''')
    \<and> stepIndex st =
        (case filter (\<lambda>l. stepId l = currentStepId st) logs of [] \<Rightarrow> 0 | l # _ \<Rightarrow> index l)
    \<and> completedStepIds st = map stepId (filter (\<lambda>l. index l = 0) logs)
    \<and> failedStepIds st = map stepId (filter (\<lambda>l. fails l \<noteq> []) logs)
    \<and> currentStepId (buildRunnerState lg None ([] :: 'p log_dir)) = ''''
    \<and> stepIndex (buildRunnerState lg None ([] :: 'p log_dir)) = 0
    \<and> currentStepId (buildRunnerState lg None (two_records lg t1 t2 :: 'p log_dir)) = ''step2''
    \<and> stepIndex (buildRunnerState lg None (two_records lg t1 t2 :: 'p log_dir)) = 10"
proof -
  have a: "sorted (map updatedAt logs)" by (simp add: logs_def getAllLogs_def)
  have b: "currentStepId st =
        (if filter (\<lambda>l. index l > 0) logs \<noteq> [] then stepId (last (filter (\<lambda>l. index l > 0) logs))
         else if logs \<noteq> [] then stepId (last logs) else '''')"
    by (simp add: st_def logs_def buildRunnerState_def inferCurrentStep_def Let_def
        find_rev_as_filter last_conv_nth)
  have c: "stepIndex st =
        (case filter (\<lambda>l. stepId l = currentStepId st) logs of [] \<Rightarrow> 0 | l # _ \<Rightarrow> index l)"
    by (simp add: st_def logs_def buildRunnerState_def Let_def find_as_filter split: list.splits)
  have d: "completedStepIds st = map stepId (filter (\<lambda>l. index l = 0) logs)"
    "failedStepIds st = map stepId (filter (\<lambda>l. fails l \<noteq> []) logs)"
    by (simp_all add: st_def logs_def buildRunnerState_def Let_def)
  have e: "currentStepId (buildRunnerState lg None ([] :: 'p log_dir)) = ''''"
    "stepIndex (buildRunnerState lg None ([] :: 'p log_dir)) = 0"
    by (simp_all add: buildRunnerState_def getAllLogs_def safeReadDir_def inferCurrentStep_def)
  show ?thesis using a b c d e two_records_state[of lg t1 t2] by simp
qed

text \<open>
  The claim as stated fails where it calls \<open>stepIndex\<close> the position in dependency order:
  for the steps step1 and step2 (depending on step1), step2 stands at position 1, and the
  state built from the two records has \<open>stepIndex\<close> 10.
\<close>

theorem resume_state_counterexample:
  "resolveDependencies two_steps
      = Inr [plainStep ''step1'' [] (returning id), plainStep ''step2'' [''step1''] (returning id)]
   \<and> currentStepId (buildRunnerState prodLogger None (two_records prodLogger 1 2 :: unit log_dir)) = ''step2''
   \<and> findIndex (\<lambda>s. step_id s = ''step2'')
        [plainStep ''step1'' [] (returning id) :: (unit, unit, unit) PipelineStep,
         plainStep ''step2'' [''step1''] (returning id)] = 1
   \<and> stepIndex (buildRunnerState prodLogger None (two_records prodLogger 1 2 :: unit log_dir)) = 10
   \<and> stepIndex (buildRunnerState prodLogger None (two_records prodLogger 1 2 :: unit log_dir)) \<noteq> 1"
proof -
  have r: "resolveDependencies two_steps
      = Inr [plainStep ''step1'' [] (returning id), plainStep ''step2'' [''step1''] (returning id)]"
    by (simp add: resolve_eval two_steps_def)
  have f: "findIndex (\<lambda>s. step_id s = ''step2'')
        [plainStep ''step1'' [] (returning id) :: (unit, unit, unit) PipelineStep,
         plainStep ''step2'' [''step1''] (returning id)] = 1"
    by (simp add: plainStep_def)
  have t: "currentStepId (buildRunnerState prodLogger None (two_records prodLogger 1 2 :: unit log_dir)) = ''step2''
     \<and> stepIndex (buildRunnerState prodLogger None (two_records prodLogger 1 2 :: unit log_dir)) = 10"
    by (rule two_records_state)
  have n: "stepIndex (buildRunnerState prodLogger None (two_records prodLogger 1 2 :: unit log_dir)) \<noteq> 1"
    using t by simp
  show ?thesis using r f t[THEN conjunct1] t[THEN conjunct2] n by (intro conjI) assumption+
qed

section \<open>Properties of the iteration controller\<close>

lemma todoIndices_append: "todoIndices (a @ b) = todoIndices a @ todoIndices b"
  by (induction a rule: todoIndices.induct) auto

lemma failureCalls_append: "failureCalls (a @ b) = failureCalls a @ failureCalls b"
  by (induction a rule: failureCalls.induct) auto

lemma replay_append:
  "replay ctl todo done' list (a @ b) w = replay ctl todo done' list b (replay ctl todo done' list a w)"
  by (simp add: replay_def)

lemma tracks_refl: "tracks ctl todo done' list s s"
  by (simp add: tracks_def replay_def)

lemma tracks_trans:
  "tracks ctl todo done' list s s1 \<Longrightarrow> tracks ctl todo done' list s1 s2 \<Longrightarrow>
   tracks ctl todo done' list s s2"
  unfolding tracks_def by (metis append.assoc replay_append)

lemma tracks_same:
  "loopCalls s' = loopCalls s \<Longrightarrow> world s' = world s \<Longrightarrow> tracks ctl todo done' list s s'"
  by (simp add: tracks_def replay_def)

lemma invoke_fields:
  "invoke c f s = (r, s') \<Longrightarrow>
     r = fst (f (world s)) \<and> world s' = snd (f (world s))
     \<and> currentIndex s' = currentIndex s \<and> remainingTime s' = remainingTime s
     \<and> failures s' = failures s \<and> intervalActive s' = intervalActive s
     \<and> inFlight s' = inFlight s
     \<and> loopCalls s' = loopCalls s @ [c]"
  by (auto simp: invoke_def split: prod.splits)

lemma invokeIfSet_fields:
  "invokeIfSet c (map_option g h) s = (r, s') \<Longrightarrow>
     currentIndex s' = currentIndex s \<and> remainingTime s' = remainingTime s
     \<and> failures s' = failures s \<and> intervalActive s' = intervalActive s
     \<and> inFlight s' = inFlight s
     \<and> loopCalls s' = loopCalls s @ present h c
     \<and> world s' = effectOf (map_option g h) (world s)
     \<and> (r \<noteq> None \<longrightarrow> (\<exists>f. h = Some f \<and> r = fst (g f (world s))))"
  by (cases h) (auto simp: invokeIfSet_def invoke_def present_def effectOf_def split: prod.splits)

lemma invoke_tracks:
  assumes "invoke c f s = (r, s')" and "\<And>w. callEffect ctl todo done' list c w = snd (f w)"
  shows "tracks ctl todo done' list s s'"
  using invoke_fields[OF assms(1)] assms(2) by (simp add: tracks_def replay_def)

lemma invokeIfSet_tracks:
  assumes "invokeIfSet c (map_option g h) s = (r, s')"
    and "\<And>w. callEffect ctl todo done' list c w = effectOf (map_option g h) w"
  shows "tracks ctl todo done' list s s'"
  using invokeIfSet_fields[OF assms(1)] assms(2)
  by (cases h) (simp_all add: tracks_def replay_def present_def effectOf_def)

lemma afterItem_fields:
  assumes "afterItem ctl delayMs L s = (r, s')"
  shows "currentIndex s' = currentIndex s \<and> failures s' = failures s
     \<and> intervalActive s' = intervalActive s \<and> inFlight s' = inFlight s
     \<and> todoIndices (loopCalls s') = todoIndices (loopCalls s)
     \<and> failureCalls (loopCalls s') = failureCalls (loopCalls s)
     \<and> count_list (loopCalls s') DoneCall = count_list (loopCalls s) DoneCall
     \<and> tracks ctl todo done' list s s'
     \<and> (quietSetLog ctl \<and> quietProgress ctl \<longrightarrow> r = None)"
proof -
  obtain r2 s2 where 2: "invokeIfSet (SetLogCall (currentIndex s))
                (map_option (\<lambda>f. f (currentIndex s)) (setLogIndex ctl)) s = (r2, s2)"
    by (cases "invokeIfSet (SetLogCall (currentIndex s))
                (map_option (\<lambda>f. f (currentIndex s)) (setLogIndex ctl)) s")
  note f2 = invokeIfSet_fields[OF 2]
  have t2: "tracks ctl todo done' list s s2"
    by (rule invokeIfSet_tracks[OF 2]) simp
  have q2: "quietSetLog ctl \<Longrightarrow> r2 = None"
    using f2 by (cases r2) (auto simp: quietSetLog_def)
  show ?thesis
  proof (cases r2)
    case (Some e)
    then have "r = Some e" "s' = s2" using assms 2 by (simp_all add: afterItem_def andThen_def)
    then show ?thesis using f2 Some q2 t2
      by (auto simp: todoIndices_append failureCalls_append present_def split: option.splits)
  next
    case N2: None
    let ?s3 = "s2\<lparr>remainingTime := remainingTime s2 - delayMs\<rparr>"
    have 3: "invokeIfSet (ProgressCall (currentIndex ?s3) L (remainingTime ?s3))
             (map_option (\<lambda>f. f (currentIndex ?s3) L (remainingTime ?s3)) (onProgress ctl)) ?s3 = (r, s')"
      using assms 2 N2 by (simp add: afterItem_def andThen_def Let_def)
    note f3 = invokeIfSet_fields[OF 3]
    have t3: "tracks ctl todo done' list ?s3 s'"
      by (rule invokeIfSet_tracks[OF 3]) simp
    have t23: "tracks ctl todo done' list s2 ?s3" by (rule tracks_same) simp_all
    have t: "tracks ctl todo done' list s s'"
      using tracks_trans[OF t2 tracks_trans[OF t23 t3]] .
    have q3: "quietProgress ctl \<Longrightarrow> r = None"
      using f3 by (cases r) (auto simp: quietProgress_def)
    show ?thesis using f2 f3 q3 t
      by (auto simp: todoIndices_append failureCalls_append present_def split: option.splits)
  qed
qed

lemma timerFires_item:
  assumes a: "intervalActive s" and le: "currentIndex s \<le> L" and e: "inFlight s = []"
  shows "\<exists>s1. invoke (TodoCall (currentIndex s)) (todo (currentIndex s) list) s
            = (fst (todo (currentIndex s) list (world s)), s1)
     \<and> timerFires ctl todo done' L list s = s1\<lparr>inFlight := [fst (todo (currentIndex s) list (world s))]\<rparr>"
proof -
  obtain r s1 where 1: "invoke (TodoCall (currentIndex s)) (todo (currentIndex s) list) s = (r, s1)"
    by (cases "invoke (TodoCall (currentIndex s)) (todo (currentIndex s) list) s")
  note f1 = invoke_fields[OF 1]
  have "timerFires ctl todo done' L list s = s1\<lparr>inFlight := [r]\<rparr>"
    using a le e 1 f1 by (simp add: timerFires_def)
  then show ?thesis using 1 f1 by auto
qed

lemma awaitedTick_item:
  assumes a: "intervalActive s" and le: "currentIndex s \<le> L" and qf: "quietFailure ctl"
    and e: "inFlight s = []"
  shows "currentIndex (awaitedTick ctl todo done' delayMs L list now s) = currentIndex s + 1
    \<and> intervalActive (awaitedTick ctl todo done' delayMs L list now s)
    \<and> inFlight (awaitedTick ctl todo done' delayMs L list now s) = []
    \<and> todoIndices (loopCalls (awaitedTick ctl todo done' delayMs L list now s))
        = todoIndices (loopCalls s) @ [currentIndex s]
    \<and> count_list (loopCalls (awaitedTick ctl todo done' delayMs L list now s)) DoneCall
        = count_list (loopCalls s) DoneCall
    \<and> tracks ctl todo done' list s (awaitedTick ctl todo done' delayMs L list now s)
    \<and> (quietSetLog ctl \<and> quietProgress ctl \<longrightarrow>
         failures (awaitedTick ctl todo done' delayMs L list now s)
           = failures s @
             (case fst (todo (currentIndex s) list (world s)) of
                None \<Rightarrow> []
              | Some e \<Rightarrow> [\<lparr>failureIndex = currentIndex s, failureError = e,
                            failureItem = itemAt list (currentIndex s), failureTimestamp = now\<rparr>])
         \<and> failureCalls (loopCalls (awaitedTick ctl todo done' delayMs L list now s))
           = failureCalls (loopCalls s) @
             (case fst (todo (currentIndex s) list (world s)) of
                None \<Rightarrow> []
              | Some e \<Rightarrow> present (onFailure ctl) (currentIndex s, e, itemAt list (currentIndex s))))"
proof -
  let ?r = "fst (todo (currentIndex s) list (world s))"
  let ?t = "awaitedTick ctl todo done' delayMs L list now s"
  from timerFires_item[OF a le e, of todo list ctl done'] obtain s1 where
    1: "invoke (TodoCall (currentIndex s)) (todo (currentIndex s) list) s = (?r, s1)"
    and tf: "timerFires ctl todo done' L list s = s1\<lparr>inFlight := [?r]\<rparr>" by blast
  note f1 = invoke_fields[OF 1]
  have t1: "tracks ctl todo done' list s s1" by (rule invoke_tracks[OF 1]) simp
  let ?s0 = "s1\<lparr>inFlight := []\<rparr>"
  have t0: "tracks ctl todo done' list s ?s0"
    by (rule tracks_trans[OF t1]) (rule tracks_same, simp_all)
  obtain r' sa where ai: "(case ?r of None \<Rightarrow> afterItem ctl delayMs L ?s0
                   | Some rejection \<Rightarrow> (Some rejection, ?s0)) = (r', sa)"
    by (cases "(case ?r of None \<Rightarrow> afterItem ctl delayMs L ?s0
                   | Some rejection \<Rightarrow> (Some rejection, ?s0))")
  have fa: "currentIndex sa = currentIndex s \<and> failures sa = failures s
     \<and> intervalActive sa = intervalActive s \<and> inFlight sa = []
     \<and> todoIndices (loopCalls sa) = todoIndices (loopCalls s) @ [currentIndex s]
     \<and> failureCalls (loopCalls sa) = failureCalls (loopCalls s)
     \<and> count_list (loopCalls sa) DoneCall = count_list (loopCalls s) DoneCall
     \<and> tracks ctl todo done' list s sa
     \<and> (quietSetLog ctl \<and> quietProgress ctl \<longrightarrow> r' = ?r)"
  proof (cases ?r)
    case None
    with ai have x: "afterItem ctl delayMs L ?s0 = (r', sa)" by simp
    note fx = afterItem_fields[OF x, of todo done' list]
    have "tracks ctl todo done' list s sa" using tracks_trans[OF t0] fx by blast
    then show ?thesis using fx f1 None
      by (simp add: todoIndices_append failureCalls_append)
  next
    case (Some err)
    with ai have "r' = Some err" "sa = ?s0" by simp_all
    then show ?thesis using f1 Some t0
      by (simp add: todoIndices_append failureCalls_append)
  qed
  have st: "?t = (case (r', sa) of
             (None, s1) \<Rightarrow> s1\<lparr>currentIndex := currentIndex s1 + 1\<rparr>
           | (Some error, s1) \<Rightarrow>
               (let failure = \<lparr>failureIndex = currentIndex s1, failureError = error,
                               failureItem = itemAt list (currentIndex s1), failureTimestamp = now\<rparr>;
                    s2 = s1\<lparr>failures := failures s1 @ [failure]\<rparr>
                in case invokeIfSet
                          (FailureCall (currentIndex s2) error (itemAt list (currentIndex s2)))
                          (map_option (\<lambda>f. f (currentIndex s2) error (itemAt list (currentIndex s2)))
                             (onFailure ctl)) s2 of
                     (None, s3) \<Rightarrow> s3\<lparr>currentIndex := currentIndex s3 + 1\<rparr>
                   | (Some thrownByHook, s3) \<Rightarrow> s3))"
    unfolding awaitedTick_def tf using ai by (simp add: settles_def Let_def)
  show ?thesis
  proof (cases r')
    case None
    then have eq: "?t = sa\<lparr>currentIndex := currentIndex sa + 1\<rparr>" using st by simp
    have ta: "tracks ctl todo done' list s sa" using fa by blast
    have tb: "tracks ctl todo done' list sa (sa\<lparr>currentIndex := currentIndex sa + 1\<rparr>)"
      by (rule tracks_same) simp_all
    have tr: "tracks ctl todo done' list s ?t"
      unfolding eq using tracks_trans[OF ta tb] .
    show ?thesis using fa a None tr unfolding eq by simp
  next
    case (Some err)
    let ?fl = "\<lparr>failureIndex = currentIndex sa, failureError = err,
                failureItem = itemAt list (currentIndex sa), failureTimestamp = now\<rparr>"
    let ?s2 = "sa\<lparr>failures := failures sa @ [?fl]\<rparr>"
    obtain r3 s3 where 3: "invokeIfSet (FailureCall (currentIndex ?s2) err (itemAt list (currentIndex ?s2)))
         (map_option (\<lambda>f. f (currentIndex ?s2) err (itemAt list (currentIndex ?s2))) (onFailure ctl)) ?s2
        = (r3, s3)"
      by (cases "invokeIfSet (FailureCall (currentIndex ?s2) err (itemAt list (currentIndex ?s2)))
         (map_option (\<lambda>f. f (currentIndex ?s2) err (itemAt list (currentIndex ?s2))) (onFailure ctl)) ?s2")
    note f3 = invokeIfSet_fields[OF 3]
    have t3: "tracks ctl todo done' list ?s2 s3" by (rule invokeIfSet_tracks[OF 3]) simp
    have r3: "r3 = None" using f3 qf by (cases r3) (auto simp: quietFailure_def)
    have eq: "?t = s3\<lparr>currentIndex := currentIndex s3 + 1\<rparr>"
      using st Some 3 r3 by (simp add: Let_def)
    have ta: "tracks ctl todo done' list s sa" using fa by blast
    have t2: "tracks ctl todo done' list sa ?s2" by (rule tracks_same) simp_all
    have t4: "tracks ctl todo done' list s3 (s3\<lparr>currentIndex := currentIndex s3 + 1\<rparr>)"
      by (rule tracks_same) simp_all
    have tr: "tracks ctl todo done' list s ?t"
      unfolding eq using tracks_trans[OF ta tracks_trans[OF t2 tracks_trans[OF t3 t4]]] .
    show ?thesis using fa f3 a Some tr unfolding eq
      by (auto simp: todoIndices_append failureCalls_append present_def split: option.splits)
  qed
qed

lemma awaitedTick_done:
  assumes a: "intervalActive s" and gt: "L < currentIndex s" and q: "quietSetLog ctl"
    and e: "inFlight s = []"
  shows "\<not> intervalActive (awaitedTick ctl todo done' delayMs L list now s)
    \<and> loopCalls (awaitedTick ctl todo done' delayMs L list now s)
        = loopCalls s @ present (setLogIndex ctl) (SetLogCall 0) @ [DoneCall]
    \<and> failures (awaitedTick ctl todo done' delayMs L list now s) = failures s
    \<and> currentIndex (awaitedTick ctl todo done' delayMs L list now s) = currentIndex s
    \<and> inFlight (awaitedTick ctl todo done' delayMs L list now s) = []
    \<and> world (awaitedTick ctl todo done' delayMs L list now s)
        = snd (done' list (effectOf (map_option (\<lambda>f. f 0) (setLogIndex ctl)) (world s)))
    \<and> tracks ctl todo done' list s (awaitedTick ctl todo done' delayMs L list now s)"
proof -
  let ?s1 = "s\<lparr>intervalActive := False\<rparr>"
  obtain r2 s2 where 2: "invokeIfSet (SetLogCall 0) (map_option (\<lambda>f. f 0) (setLogIndex ctl)) ?s1 = (r2, s2)"
    by (cases "invokeIfSet (SetLogCall 0) (map_option (\<lambda>f. f 0) (setLogIndex ctl)) ?s1")
  note f2 = invokeIfSet_fields[OF 2]
  have r2: "r2 = None" using f2 q by (cases r2) (auto simp: quietSetLog_def)
  obtain r3 s3 where 3: "invoke DoneCall (done' list) s2 = (r3, s3)"
    by (cases "invoke DoneCall (done' list) s2")
  note f3 = invoke_fields[OF 3]
  have t1: "tracks ctl todo done' list s ?s1" by (rule tracks_same) simp_all
  have t2: "tracks ctl todo done' list ?s1 s2" by (rule invokeIfSet_tracks[OF 2]) simp
  have t3: "tracks ctl todo done' list s2 s3" by (rule invoke_tracks[OF 3]) simp
  have tf: "timerFires ctl todo done' L list s = s3"
    using a gt 2 r2 3 by (simp add: timerFires_def Let_def)
  have "inFlight s3 = []" using f2 f3 e by simp
  then have "awaitedTick ctl todo done' delayMs L list now s = s3"
    unfolding awaitedTick_def tf by (simp add: settles_def)
  then show ?thesis using f2 f3 e tracks_trans[OF t1 tracks_trans[OF t2 t3]] by simp
qed

lemma awaitedTick_inactive:
  "\<not> intervalActive s \<Longrightarrow> inFlight s = [] \<Longrightarrow> awaitedTick ctl todo done' delayMs L list now s = s"
  by (simp add: awaitedTick_def timerFires_def settles_def)

lemma runEvents_append:
  "runEvents ctl todo done' delayMs L list (e1 @ e2) s
     = runEvents ctl todo done' delayMs L list e2 (runEvents ctl todo done' delayMs L list e1 s)"
  by (induction e1 arbitrary: s) simp_all

lemma awaited_Cons:
  "runEvents ctl todo done' delayMs L list (awaited (now # rest)) s
     = runEvents ctl todo done' delayMs L list (awaited rest)
         (awaitedTick ctl todo done' delayMs L list now s)"
  by (simp add: awaited_def awaitedTick_def timerStep_def)

lemma awaited_Nil: "runEvents ctl todo done' delayMs L list (awaited []) s = s"
  by (simp add: awaited_def)

lemma awaited_append: "awaited (a @ b) = awaited a @ awaited b"
  by (simp add: awaited_def)

lemma awaited_inactive:
  "\<not> intervalActive s \<Longrightarrow> inFlight s = [] \<Longrightarrow>
   runEvents ctl todo done' delayMs L list (awaited clock) s = s"
  by (induction clock) (simp_all add: awaited_Nil awaited_Cons awaitedTick_inactive)

lemma awaited_items:
  assumes qf: "quietFailure ctl"
  shows "intervalActive s \<Longrightarrow> inFlight s = [] \<Longrightarrow>
     currentIndex s + int (length clock) \<le> L + 1 \<Longrightarrow>
     currentIndex (runEvents ctl todo done' delayMs L list (awaited clock) s)
         = currentIndex s + int (length clock)
     \<and> intervalActive (runEvents ctl todo done' delayMs L list (awaited clock) s)
     \<and> inFlight (runEvents ctl todo done' delayMs L list (awaited clock) s) = []
     \<and> todoIndices (loopCalls (runEvents ctl todo done' delayMs L list (awaited clock) s))
         = todoIndices (loopCalls s) @ [currentIndex s .. currentIndex s + int (length clock) - 1]
     \<and> count_list (loopCalls (runEvents ctl todo done' delayMs L list (awaited clock) s)) DoneCall
         = count_list (loopCalls s) DoneCall"
proof (induction clock arbitrary: s)
  case Nil
  then show ?case by (simp add: awaited_Nil)
next
  case (Cons now rest)
  let ?s1 = "awaitedTick ctl todo done' delayMs L list now s"
  have le: "currentIndex s \<le> L" using Cons.prems(3) by simp
  note t = awaitedTick_item[OF Cons.prems(1) le qf Cons.prems(2), of todo done' delayMs list now]
  have a1: "intervalActive ?s1" and e1: "inFlight ?s1 = []" using t by simp_all
  have b1: "currentIndex ?s1 + int (length rest) \<le> L + 1" using t Cons.prems(3) by simp
  have up: "[currentIndex s .. currentIndex s + int (length (now # rest)) - 1]
      = currentIndex s # [currentIndex s + 1 .. currentIndex s + 1 + int (length rest) - 1]"
    by (simp add: upto_rec1[of "currentIndex s"] add.commute add.left_commute)
  from Cons.IH[OF a1 e1 b1] t show ?case unfolding up awaited_Cons by simp
qed

lemma awaited_failures:
  assumes qf: "quietFailure ctl" and qs: "quietSetLog ctl" and qp: "quietProgress ctl"
    and u: "\<forall>i l w. (fst (todo i l w) \<noteq> None) = failsAt i"
  shows "intervalActive s \<Longrightarrow> inFlight s = [] \<Longrightarrow>
     currentIndex s + int (length clock) \<le> L + 1 \<Longrightarrow>
     (\<exists>new. failures (runEvents ctl todo done' delayMs L list (awaited clock) s) = failures s @ new
        \<and> map failureIndex new
            = filter failsAt [currentIndex s .. currentIndex s + int (length clock) - 1]
        \<and> (\<forall>f\<in>set new. currentIndex s \<le> failureIndex f
              \<and> failureItem f = itemAt list (failureIndex f)
              \<and> failureTimestamp f = clock ! nat (failureIndex f - currentIndex s)
              \<and> (\<exists>w. fst (todo (failureIndex f) list w) = Some (failureError f)))
        \<and> failureCalls (loopCalls (runEvents ctl todo done' delayMs L list (awaited clock) s))
            = failureCalls (loopCalls s)
              @ concat (map (\<lambda>f. present (onFailure ctl) (failureIndex f, failureError f, failureItem f))
                          new))"
proof (induction clock arbitrary: s)
  case Nil
  then show ?case by (simp add: awaited_Nil)
next
  case (Cons now rest)
  let ?s1 = "awaitedTick ctl todo done' delayMs L list now s"
  let ?i = "currentIndex s"
  have le: "?i \<le> L" using Cons.prems(3) by simp
  note t = awaitedTick_item[OF Cons.prems(1) le qf Cons.prems(2), of todo done' delayMs list now]
  have a1: "intervalActive ?s1" and e1: "inFlight ?s1 = []" using t by simp_all
  have c1: "currentIndex ?s1 = ?i + 1" using t by simp
  have b1: "currentIndex ?s1 + int (length rest) \<le> L + 1" using c1 Cons.prems(3) by simp
  have up: "[?i .. ?i + int (length (now # rest)) - 1] = ?i # [?i + 1 .. ?i + 1 + int (length rest) - 1]"
    by (simp add: upto_rec1[of ?i] add.commute add.left_commute)
  from Cons.IH[OF a1 e1 b1] obtain new where
    n1: "failures (runEvents ctl todo done' delayMs L list (awaited rest) ?s1) = failures ?s1 @ new"
    and n2: "map failureIndex new = filter failsAt [?i + 1 .. ?i + 1 + int (length rest) - 1]"
    and n3: "\<forall>f\<in>set new. ?i + 1 \<le> failureIndex f
              \<and> failureItem f = itemAt list (failureIndex f)
              \<and> failureTimestamp f = rest ! nat (failureIndex f - (?i + 1))
              \<and> (\<exists>w. fst (todo (failureIndex f) list w) = Some (failureError f))"
    and n4: "failureCalls (loopCalls (runEvents ctl todo done' delayMs L list (awaited rest) ?s1))
            = failureCalls (loopCalls ?s1)
              @ concat (map (\<lambda>f. present (onFailure ctl) (failureIndex f, failureError f, failureItem f))
                          new)"
    unfolding c1 by blast
  let ?r = "fst (todo ?i list (world s))"
  let ?first = "case ?r of None \<Rightarrow> []
      | Some e \<Rightarrow> [\<lparr>failureIndex = ?i, failureError = e,
                    failureItem = itemAt list ?i, failureTimestamp = now\<rparr>]"
  have tf: "failures ?s1 = failures s @ ?first"
    and tc: "failureCalls (loopCalls ?s1) = failureCalls (loopCalls s) @
             (case ?r of None \<Rightarrow> [] | Some e \<Rightarrow> present (onFailure ctl) (?i, e, itemAt list ?i))"
    using t qs qp by simp_all
  have fa: "failsAt ?i = (?r \<noteq> None)" using u by simp
  have shift: "(now # rest) ! nat (k - ?i) = rest ! nat (k - (?i + 1))" if "?i + 1 \<le> k" for k
  proof -
    from that have "nat (k - ?i) = Suc (nat (k - (?i + 1)))" by simp
    then show ?thesis by simp
  qed
  have A: "failures (runEvents ctl todo done' delayMs L list (awaited (now # rest)) s)
      = failures s @ (?first @ new)"
    unfolding awaited_Cons using n1 tf by simp
  have B: "map failureIndex (?first @ new) = filter failsAt [?i .. ?i + int (length (now # rest)) - 1]"
    unfolding up using n2 fa by (cases ?r) simp_all
  have C: "\<forall>f\<in>set (?first @ new). ?i \<le> failureIndex f
              \<and> failureItem f = itemAt list (failureIndex f)
              \<and> failureTimestamp f = (now # rest) ! nat (failureIndex f - ?i)
              \<and> (\<exists>w. fst (todo (failureIndex f) list w) = Some (failureError f))"
  proof
    fix f assume "f \<in> set (?first @ new)"
    then consider "f \<in> set ?first" | "f \<in> set new" by auto
    then show "?i \<le> failureIndex f
              \<and> failureItem f = itemAt list (failureIndex f)
              \<and> failureTimestamp f = (now # rest) ! nat (failureIndex f - ?i)
              \<and> (\<exists>w. fst (todo (failureIndex f) list w) = Some (failureError f))"
    proof cases
      case 1
      show ?thesis
      proof (cases ?r)
        case None
        with 1 show ?thesis by simp
      next
        case (Some e)
        then have "\<exists>w. fst (todo ?i list w) = Some e" by blast
        with 1 Some show ?thesis by simp
      qed
    next
      case 2
      with n3 have "?i + 1 \<le> failureIndex f" "failureItem f = itemAt list (failureIndex f)"
        "failureTimestamp f = rest ! nat (failureIndex f - (?i + 1))"
        "\<exists>w. fst (todo (failureIndex f) list w) = Some (failureError f)" by auto
      then show ?thesis using shift[of "failureIndex f"] by simp
    qed
  qed
  have D: "failureCalls (loopCalls (runEvents ctl todo done' delayMs L list (awaited (now # rest)) s))
            = failureCalls (loopCalls s)
              @ concat (map (\<lambda>f. present (onFailure ctl) (failureIndex f, failureError f, failureItem f))
                          (?first @ new))"
    unfolding awaited_Cons using n4 tc by (cases ?r) simp_all
  show ?case using A B C D by blast
qed

lemma timerStep_tracks:
  "tracks ctl todo done' list s (timerStep ctl todo done' delayMs L list ev s)"
proof (cases ev)
  case TimerFires
  show ?thesis
  proof (cases "intervalActive s")
    case False
    then show ?thesis using TimerFires by (simp add: timerStep_def timerFires_def tracks_refl)
  next
    case True
    show ?thesis
    proof (cases "currentIndex s \<le> L")
      case le: True
      obtain r s1 where 1: "invoke (TodoCall (currentIndex s)) (todo (currentIndex s) list) s = (r, s1)"
        by (cases "invoke (TodoCall (currentIndex s)) (todo (currentIndex s) list) s")
      have t1: "tracks ctl todo done' list s s1" by (rule invoke_tracks[OF 1]) simp
      have t2: "tracks ctl todo done' list s1 (s1\<lparr>inFlight := inFlight s1 @ [r]\<rparr>)"
        by (rule tracks_same) simp_all
      have "timerStep ctl todo done' delayMs L list ev s = s1\<lparr>inFlight := inFlight s1 @ [r]\<rparr>"
        using TimerFires True le 1 by (simp add: timerStep_def timerFires_def)
      then show ?thesis using tracks_trans[OF t1 t2] by simp
    next
      case gt: False
      let ?s1 = "s\<lparr>intervalActive := False\<rparr>"
      obtain r2 s2 where 2: "invokeIfSet (SetLogCall 0) (map_option (\<lambda>f. f 0) (setLogIndex ctl)) ?s1 = (r2, s2)"
        by (cases "invokeIfSet (SetLogCall 0) (map_option (\<lambda>f. f 0) (setLogIndex ctl)) ?s1")
      obtain r3 s3 where 3: "invoke DoneCall (done' list) s2 = (r3, s3)"
        by (cases "invoke DoneCall (done' list) s2")
      have t1: "tracks ctl todo done' list s ?s1" by (rule tracks_same) simp_all
      have t2: "tracks ctl todo done' list ?s1 s2" by (rule invokeIfSet_tracks[OF 2]) simp
      have t3: "tracks ctl todo done' list s2 s3" by (rule invoke_tracks[OF 3]) simp
      have "timerStep ctl todo done' delayMs L list ev s = (case r2 of None \<Rightarrow> s3 | Some _ \<Rightarrow> s2)"
        using TimerFires True gt 2 3 by (simp add: timerStep_def timerFires_def Let_def split: option.splits)
      then show ?thesis
        using tracks_trans[OF t1 t2] tracks_trans[OF t1 tracks_trans[OF t2 t3]] by (cases r2) simp_all
    qed
  qed
next
  case (Settles k now)
  show ?thesis
  proof (cases "length (inFlight s) \<le> k")
    case True
    then show ?thesis using Settles by (simp add: timerStep_def settles_def tracks_refl)
  next
    case False
    let ?s0 = "s\<lparr>inFlight := take k (inFlight s) @ drop (Suc k) (inFlight s)\<rparr>"
    have t0: "tracks ctl todo done' list s ?s0" by (rule tracks_same) simp_all
    obtain r' sa where ai: "(case inFlight s ! k of None \<Rightarrow> afterItem ctl delayMs L ?s0
                   | Some rejection \<Rightarrow> (Some rejection, ?s0)) = (r', sa)"
      by (cases "(case inFlight s ! k of None \<Rightarrow> afterItem ctl delayMs L ?s0
                   | Some rejection \<Rightarrow> (Some rejection, ?s0))")
    have ta: "tracks ctl todo done' list s sa"
    proof (cases "inFlight s ! k")
      case None
      with ai have x: "afterItem ctl delayMs L ?s0 = (r', sa)" by simp
      from afterItem_fields[OF x, of todo done' list] tracks_trans[OF t0] show ?thesis by blast
    next
      case (Some err)
      with ai t0 show ?thesis by simp
    qed
    show ?thesis
    proof (cases r')
      case None
      have tb: "tracks ctl todo done' list sa (sa\<lparr>currentIndex := currentIndex sa + 1\<rparr>)"
        by (rule tracks_same) simp_all
      have "timerStep ctl todo done' delayMs L list ev s = sa\<lparr>currentIndex := currentIndex sa + 1\<rparr>"
        using Settles False ai None by (simp add: timerStep_def settles_def Let_def)
      then show ?thesis using tracks_trans[OF ta tb] by simp
    next
      case (Some err)
      let ?fl = "\<lparr>failureIndex = currentIndex sa, failureError = err,
                  failureItem = itemAt list (currentIndex sa), failureTimestamp = now\<rparr>"
      let ?s2 = "sa\<lparr>failures := failures sa @ [?fl]\<rparr>"
      obtain r3 s3 where 3: "invokeIfSet (FailureCall (currentIndex ?s2) err (itemAt list (currentIndex ?s2)))
           (map_option (\<lambda>f. f (currentIndex ?s2) err (itemAt list (currentIndex ?s2))) (onFailure ctl)) ?s2
          = (r3, s3)"
        by (cases "invokeIfSet (FailureCall (currentIndex ?s2) err (itemAt list (currentIndex ?s2)))
           (map_option (\<lambda>f. f (currentIndex ?s2) err (itemAt list (currentIndex ?s2))) (onFailure ctl)) ?s2")
      have t2: "tracks ctl todo done' list sa ?s2" by (rule tracks_same) simp_all
      have t3: "tracks ctl todo done' list ?s2 s3" by (rule invokeIfSet_tracks[OF 3]) simp
      have t4: "tracks ctl todo done' list s3 (s3\<lparr>currentIndex := currentIndex s3 + 1\<rparr>)"
        by (rule tracks_same) simp_all
      have "timerStep ctl todo done' delayMs L list ev s
          = (case r3 of None \<Rightarrow> s3\<lparr>currentIndex := currentIndex s3 + 1\<rparr> | Some _ \<Rightarrow> s3)"
        using Settles False ai Some 3
        by (simp add: timerStep_def settles_def Let_def split: option.splits)
      then show ?thesis
        using tracks_trans[OF ta tracks_trans[OF t2 t3]]
          tracks_trans[OF ta tracks_trans[OF t2 tracks_trans[OF t3 t4]]]
        by (cases r3) simp_all
    qed
  qed
qed

lemma runEvents_tracks:
  "tracks ctl todo done' list s (runEvents ctl todo done' delayMs L list evs s)"
proof (induction evs arbitrary: s)
  case Nil
  then show ?case by (simp add: tracks_refl)
next
  case (Cons ev evs)
  show ?case
    using tracks_trans[OF timerStep_tracks[of ctl todo done' list s delayMs L ev]
        Cons.IH[of "timerStep ctl todo done' delayMs L list ev s"]]
    by simp
qed

lemma loopDelay_replay:
  "world (loopDelay ctl fs limit todo done' delayMs i list events w0)
     = replay ctl todo done' list
         (loopCalls (loopDelay ctl fs limit todo done' delayMs i list events w0)) w0"
  using runEvents_tracks[of ctl todo done' list "loopStart ctl fs limit delayMs i w0" delayMs
      "adjustedLimitOf ctl limit w0" events]
  by (auto simp: tracks_def loopDelay_def loopStart_def)

lemma awaited_complete:
  assumes qf: "quietFailure ctl" and qs: "quietSetLog ctl"
    and a: "intervalActive s" and e: "inFlight s = []" and k: "currentIndex s \<le> L + 1"
    and n: "n = nat (L + 1 - currentIndex s)" and len: "n < length clock"
  shows "runEvents ctl todo done' delayMs L list (awaited clock) s
           = awaitedTick ctl todo done' delayMs L list (clock ! n)
               (runEvents ctl todo done' delayMs L list (awaited (take n clock)) s)
    \<and> \<not> intervalActive (runEvents ctl todo done' delayMs L list (awaited clock) s)
    \<and> inFlight (runEvents ctl todo done' delayMs L list (awaited clock) s) = []
    \<and> todoIndices (loopCalls (runEvents ctl todo done' delayMs L list (awaited clock) s))
        = todoIndices (loopCalls s) @ [currentIndex s .. L]
    \<and> count_list (loopCalls (runEvents ctl todo done' delayMs L list (awaited clock) s)) DoneCall
        = count_list (loopCalls s) DoneCall + 1
    \<and> loopCalls (runEvents ctl todo done' delayMs L list (awaited clock) s)
        = loopCalls (runEvents ctl todo done' delayMs L list (awaited (take n clock)) s)
          @ present (setLogIndex ctl) (SetLogCall 0) @ [DoneCall]
    \<and> failures (runEvents ctl todo done' delayMs L list (awaited clock) s)
        = failures (runEvents ctl todo done' delayMs L list (awaited (take n clock)) s)
    \<and> world (runEvents ctl todo done' delayMs L list (awaited clock) s)
        = snd (done' list (effectOf (map_option (\<lambda>f. f 0) (setLogIndex ctl))
             (world (runEvents ctl todo done' delayMs L list (awaited (take n clock)) s))))"
proof -
  let ?c1 = "take n clock"
  let ?s1 = "runEvents ctl todo done' delayMs L list (awaited ?c1) s"
  let ?s2 = "awaitedTick ctl todo done' delayMs L list (clock ! n) ?s1"
  have l1: "length ?c1 = n" using len by simp
  have split: "clock = ?c1 @ (clock ! n) # drop (Suc n) clock"
    using len by (simp add: id_take_nth_drop[symmetric])
  have b: "currentIndex s + int (length ?c1) \<le> L + 1" using l1 n k by simp
  note I = awaited_items[OF qf a e b, of todo done' delayMs list]
  have c1: "currentIndex ?s1 = L + 1" using I l1 n k by simp
  have a1: "intervalActive ?s1" and e1: "inFlight ?s1 = []" using I by simp_all
  have gt: "L < currentIndex ?s1" using c1 by simp
  note D = awaitedTick_done[OF a1 gt qs e1, of todo done' delayMs list "clock ! n"]
  have rest: "runEvents ctl todo done' delayMs L list (awaited (drop (Suc n) clock)) ?s2 = ?s2"
    using D by (simp add: awaited_inactive)
  have "runEvents ctl todo done' delayMs L list (awaited clock) s
      = runEvents ctl todo done' delayMs L list (awaited ((clock ! n) # drop (Suc n) clock)) ?s1"
    using runEvents_append[of ctl todo done' delayMs L list "awaited ?c1"
        "awaited ((clock ! n) # drop (Suc n) clock)" s]
      awaited_append[of ?c1 "(clock ! n) # drop (Suc n) clock"] split by simp
  then have e': "runEvents ctl todo done' delayMs L list (awaited clock) s = ?s2"
    using rest by (simp add: awaited_Cons)
  have range: "[currentIndex s .. currentIndex s + int (length ?c1) - 1] = [currentIndex s .. L]"
    using l1 n k by simp
  have ti: "todoIndices (loopCalls ?s2) = todoIndices (loopCalls s) @ [currentIndex s .. L]"
    using D I range by (simp add: todoIndices_append present_def split: option.splits)
  have dc: "count_list (loopCalls ?s2) DoneCall = count_list (loopCalls s) DoneCall + 1"
    using D I by (simp add: present_def split: option.splits)
  show ?thesis unfolding e' using D ti dc by simp
qed

lemma runEvents_inactive:
  "\<not> intervalActive s \<Longrightarrow> inFlight s = [] \<Longrightarrow>
   runEvents ctl todo done' delayMs L list evs s = s"
proof (induction evs)
  case Nil
  then show ?case by simp
next
  case (Cons ev evs)
  then have "timerStep ctl todo done' delayMs L list ev s = s"
    by (cases ev) (simp_all add: timerStep_def timerFires_def settles_def)
  with Cons show ?case by simp
qed

lemma timerFires_done:
  assumes a: "intervalActive s" and gt: "L < currentIndex s" and q: "quietSetLog ctl"
    and e: "inFlight s = []"
  shows "\<not> intervalActive (timerFires ctl todo done' L list s)
    \<and> inFlight (timerFires ctl todo done' L list s) = []
    \<and> loopCalls (timerFires ctl todo done' L list s)
        = loopCalls s @ present (setLogIndex ctl) (SetLogCall 0) @ [DoneCall]
    \<and> world (timerFires ctl todo done' L list s)
        = snd (done' list (effectOf (map_option (\<lambda>f. f 0) (setLogIndex ctl)) (world s)))"
proof -
  let ?s1 = "s\<lparr>intervalActive := False\<rparr>"
  obtain r2 s2 where 2: "invokeIfSet (SetLogCall 0) (map_option (\<lambda>f. f 0) (setLogIndex ctl)) ?s1 = (r2, s2)"
    by (cases "invokeIfSet (SetLogCall 0) (map_option (\<lambda>f. f 0) (setLogIndex ctl)) ?s1")
  note f2 = invokeIfSet_fields[OF 2]
  have r2: "r2 = None" using f2 q by (cases r2) (auto simp: quietSetLog_def)
  obtain r3 s3 where 3: "invoke DoneCall (done' list) s2 = (r3, s3)"
    by (cases "invoke DoneCall (done' list) s2")
  note f3 = invoke_fields[OF 3]
  have tf: "timerFires ctl todo done' L list s = s3"
    using a gt 2 r2 3 by (simp add: timerFires_def Let_def)
  show ?thesis unfolding tf using f2 f3 e by simp
qed

text \<open>
  Claim C6, as the code has it. Take a controller whose bound 5 is not capped (it is in
  production, or its maximum is at least 5) and that has no position to resume from, an
  item callback that fails exactly at index 2, and optional callbacks that return normally.
  Let the run be awaited, that is, let every promise of the item callback settle before the
  timer fires again, and let the timer fire seven times or more. Then the item callback
  has been called for the indices 0 to 5 in this order; the failures of the controller are
  exactly one, with index 2, the value the callback failed with, the item at 2 and the
  clock reading at the third settling, and the failure callback, if set, was called once
  with that index, value and item; the timer is cleared and no promise is in flight; the
  last calls are the callback that persists the index, with 0, if set, and the completion
  callback, which was called once, and the state of the callbacks is the one that these two
  leave, applied to what the calls before them have left; altogether that state is the one
  obtained by running the recorded calls one after the other.
\<close>

theorem loop_with_one_failure:
  fixes ctl :: "('a, 'w, 'e) LoopController"
  assumes uncapped: "ctlIsProduction ctl \<or> 5 \<le> ctlMaxItems ctl"
    and fresh: "noResume ctl w0"
    and fails2: "\<forall>i l w. (fst (todo i l w) \<noteq> None) = (i = 2)"
    and qs: "quietSetLog ctl" and qp: "quietProgress ctl" and qf: "quietFailure ctl"
    and ticks: "7 \<le> length clock"
  shows "todoIndices (loopCalls (loopDelay ctl [] 5 todo done' delayMs 0 list (awaited clock) w0))
      = [0, 1, 2, 3, 4, 5]
    \<and> (\<exists>e. (\<exists>w. fst (todo 2 list w) = Some e)
           \<and> failures (loopDelay ctl [] 5 todo done' delayMs 0 list (awaited clock) w0)
              = [\<lparr>failureIndex = 2, failureError = e, failureItem = itemAt list 2,
                  failureTimestamp = clock ! 2\<rparr>]
           \<and> failureCalls (loopCalls (loopDelay ctl [] 5 todo done' delayMs 0 list (awaited clock) w0))
              = present (onFailure ctl) (2, e, itemAt list 2))
    \<and> \<not> intervalActive (loopDelay ctl [] 5 todo done' delayMs 0 list (awaited clock) w0)
    \<and> inFlight (loopDelay ctl [] 5 todo done' delayMs 0 list (awaited clock) w0) = []
    \<and> count_list (loopCalls (loopDelay ctl [] 5 todo done' delayMs 0 list (awaited clock) w0)) DoneCall = 1
    \<and> (\<exists>before. loopCalls (loopDelay ctl [] 5 todo done' delayMs 0 list (awaited clock) w0)
              = before @ present (setLogIndex ctl) (SetLogCall 0) @ [DoneCall]
          \<and> world (loopDelay ctl [] 5 todo done' delayMs 0 list (awaited clock) w0)
              = snd (done' list (effectOf (map_option (\<lambda>f. f 0) (setLogIndex ctl))
                       (replay ctl todo done' list before w0))))
    \<and> world (loopDelay ctl [] 5 todo done' delayMs 0 list (awaited clock) w0)
        = replay ctl todo done' list
            (loopCalls (loopDelay ctl [] 5 todo done' delayMs 0 list (awaited clock) w0)) w0"
proof -
  let ?s0 = "loopStart ctl [] 5 delayMs 0 w0 :: ('a, 'w, 'e) loop_state"
  have L: "adjustedLimitOf ctl 5 w0 = 5"
    using uncapped fresh by (auto simp: adjustedLimitOf_def noResume_def split: option.splits)
  have st: "startIndexOf ctl 0 w0 = 0"
    using fresh by (auto simp: startIndexOf_def noResume_def split: option.splits)
  have s0: "currentIndex ?s0 = 0" "intervalActive ?s0" "loopCalls ?s0 = []" "failures ?s0 = []"
      "inFlight ?s0 = []" "world ?s0 = w0"
    by (simp_all add: loopStart_def st)
  let ?run = "\<lambda>c. runEvents ctl todo done' delayMs 5 list (awaited c) ?s0"
  have e: "loopDelay ctl [] 5 todo done' delayMs 0 list (awaited clock) w0 = ?run clock"
    by (simp add: loopDelay_def L)
  have k: "currentIndex ?s0 \<le> 5 + 1" using s0 by simp
  have n: "6 = nat (5 + 1 - currentIndex ?s0)" using s0 by simp
  have len: "6 < length clock" using ticks by simp
  note C = awaited_complete[OF qf qs s0(2) s0(5) k n len, of todo done' delayMs list]
  note Ca = C[THEN conjunct2, THEN conjunct1]
  note Ci = C[THEN conjunct2, THEN conjunct2, THEN conjunct1]
  note Ct = C[THEN conjunct2, THEN conjunct2, THEN conjunct2, THEN conjunct1]
  note Cd = C[THEN conjunct2, THEN conjunct2, THEN conjunct2, THEN conjunct2, THEN conjunct1]
  note Cl = C[THEN conjunct2, THEN conjunct2, THEN conjunct2, THEN conjunct2, THEN conjunct2,
      THEN conjunct1]
  note Cf = C[THEN conjunct2, THEN conjunct2, THEN conjunct2, THEN conjunct2, THEN conjunct2,
      THEN conjunct2, THEN conjunct1]
  note Cw = C[THEN conjunct2, THEN conjunct2, THEN conjunct2, THEN conjunct2, THEN conjunct2,
      THEN conjunct2, THEN conjunct2]
  have b: "currentIndex ?s0 + int (length (take 6 clock)) \<le> 5 + 1" using s0 ticks by simp
  from awaited_failures[OF qf qs qp fails2 s0(2) s0(5) b, of done' delayMs list]
  obtain new where
    f1: "failures (?run (take 6 clock)) = failures ?s0 @ new"
    and f2: "map failureIndex new
        = filter (\<lambda>i. i = 2) [currentIndex ?s0 .. currentIndex ?s0 + int (length (take 6 clock)) - 1]"
    and f3: "\<forall>f\<in>set new. currentIndex ?s0 \<le> failureIndex f
              \<and> failureItem f = itemAt list (failureIndex f)
              \<and> failureTimestamp f = take 6 clock ! nat (failureIndex f - currentIndex ?s0)
              \<and> (\<exists>w. fst (todo (failureIndex f) list w) = Some (failureError f))"
    and f4: "failureCalls (loopCalls (?run (take 6 clock)))
            = failureCalls (loopCalls ?s0)
              @ concat (map (\<lambda>f. present (onFailure ctl) (failureIndex f, failureError f, failureItem f))
                          new)"
    by blast
  have r05: "[0 .. 5] = [0, 1, 2, 3, 4, 5 :: int]" by code_simp
  have "map failureIndex new = [2]" using f2 s0 ticks by (simp add: r05)
  then obtain f where nf: "new = [f]" and fi: "failureIndex f = 2" by auto
  have fit: "failureItem f = itemAt list 2" and fts: "failureTimestamp f = clock ! 2"
    and fer: "\<exists>w. fst (todo 2 list w) = Some (failureError f)"
    using f3 nf fi s0 ticks by simp_all
  have feq: "f = \<lparr>failureIndex = 2, failureError = failureError f, failureItem = itemAt list 2,
                  failureTimestamp = clock ! 2\<rparr>"
    using fi fit fts by simp
  have F: "failures (?run clock) = [\<lparr>failureIndex = 2, failureError = failureError f,
       failureItem = itemAt list 2, failureTimestamp = clock ! 2\<rparr>]"
    using Cf f1 nf s0 feq by simp
  have fc6: "failureCalls (loopCalls (?run (take 6 clock)))
      = present (onFailure ctl) (2, failureError f, itemAt list 2)"
    using f4 nf s0 fi fit by simp
  have FC: "failureCalls (loopCalls (?run clock)) = present (onFailure ctl) (2, failureError f, itemAt list 2)"
    using Cl fc6 by (simp add: failureCalls_append present_def split: option.splits)
  have T: "todoIndices (loopCalls (?run clock)) = [0, 1, 2, 3, 4, 5]"
    using Ct s0 by (simp add: r05)
  have D: "count_list (loopCalls (?run clock)) DoneCall = 1" using Cd s0 by simp
  have A: "\<not> intervalActive (?run clock)" using Ca by simp
  have I: "inFlight (?run clock) = []" using Ci by simp
  have w6: "world (?run (take 6 clock)) = replay ctl todo done' list (loopCalls (?run (take 6 clock))) w0"
    using runEvents_tracks[of ctl todo done' list ?s0 delayMs 5 "awaited (take 6 clock)"] s0
    by (auto simp: tracks_def)
  have B: "\<exists>before. loopCalls (?run clock) = before @ present (setLogIndex ctl) (SetLogCall 0) @ [DoneCall]
      \<and> world (?run clock)
          = snd (done' list (effectOf (map_option (\<lambda>f. f 0) (setLogIndex ctl))
                   (replay ctl todo done' list before w0)))"
    using Cl Cw w6 by auto
  have W: "world (?run clock) = replay ctl todo done' list (loopCalls (?run clock)) w0"
    using loopDelay_replay[of ctl "[]" 5 todo done' delayMs 0 list "awaited clock" w0]
    unfolding e .
  show ?thesis unfolding e using T fer F FC A I D B W by blast
qed

lemma timerFires_past_bound:
  assumes gt: "L < currentIndex s" and e: "inFlight s = []"
  shows "L < currentIndex (timerFires ctl todo done' L list s)
    \<and> inFlight (timerFires ctl todo done' L list s) = []
    \<and> \<not> intervalActive (timerFires ctl todo done' L list s)
    \<and> todoIndices (loopCalls (timerFires ctl todo done' L list s)) = todoIndices (loopCalls s)"
proof (cases "intervalActive s")
  case False
  then show ?thesis using gt e by (simp add: timerFires_def)
next
  case True
  let ?s1 = "s\<lparr>intervalActive := False\<rparr>"
  obtain r2 s2 where 2: "invokeIfSet (SetLogCall 0) (map_option (\<lambda>f. f 0) (setLogIndex ctl)) ?s1 = (r2, s2)"
    by (cases "invokeIfSet (SetLogCall 0) (map_option (\<lambda>f. f 0) (setLogIndex ctl)) ?s1")
  note f2 = invokeIfSet_fields[OF 2]
  obtain r3 s3 where 3: "invoke DoneCall (done' list) s2 = (r3, s3)"
    by (cases "invoke DoneCall (done' list) s2")
  note f3 = invoke_fields[OF 3]
  have tf: "timerFires ctl todo done' L list s = (case r2 of None \<Rightarrow> s3 | Some _ \<Rightarrow> s2)"
    using True gt 2 3 by (simp add: timerFires_def Let_def split: option.splits)
  show ?thesis unfolding tf using f2 f3 gt e
    by (cases r2) (simp_all add: todoIndices_append present_def split: option.splits)
qed

lemma runEvents_past_bound:
  "L < currentIndex s \<Longrightarrow> inFlight s = [] \<Longrightarrow>
   todoIndices (loopCalls (runEvents ctl todo done' delayMs L list evs s)) = todoIndices (loopCalls s)"
proof (induction evs arbitrary: s)
  case Nil
  then show ?case by simp
next
  case (Cons ev evs)
  show ?case
  proof (cases ev)
    case TimerFires
    note t = timerFires_past_bound[OF Cons.prems, of ctl todo done' list]
    from Cons.IH[of "timerFires ctl todo done' L list s"] t TimerFires
    show ?thesis by (simp add: timerStep_def)
  next
    case (Settles k now)
    then have "timerStep ctl todo done' delayMs L list ev s = s"
      using Cons.prems by (simp add: timerStep_def settles_def)
    with Cons show ?thesis by simp
  qed
qed

lemma awaited_items_to_bound:
  assumes qf: "quietFailure ctl"
    and a: "intervalActive s" and e: "inFlight s = []" and k: "currentIndex s \<le> L + 1"
    and n: "n = nat (L + 1 - currentIndex s)" and len: "n < length clock"
  shows "todoIndices (loopCalls (runEvents ctl todo done' delayMs L list (awaited clock) s))
        = todoIndices (loopCalls s) @ [currentIndex s .. L]
    \<and> \<not> intervalActive (runEvents ctl todo done' delayMs L list (awaited clock) s)
    \<and> inFlight (runEvents ctl todo done' delayMs L list (awaited clock) s) = []"
proof -
  let ?c1 = "take n clock"
  let ?s1 = "runEvents ctl todo done' delayMs L list (awaited ?c1) s"
  let ?s2 = "timerFires ctl todo done' L list ?s1"
  have l1: "length ?c1 = n" using len by simp
  have split: "clock = ?c1 @ (clock ! n) # drop (Suc n) clock"
    using len by (simp add: id_take_nth_drop[symmetric])
  have b: "currentIndex s + int (length ?c1) \<le> L + 1" using l1 n k by simp
  note I = awaited_items[OF qf a e b, of todo done' delayMs list]
  have c1: "currentIndex ?s1 = L + 1" using I l1 n k by simp
  have e1: "inFlight ?s1 = []" using I by simp
  have gt: "L < currentIndex ?s1" using c1 by simp
  note D = timerFires_past_bound[OF gt e1, of ctl todo done' list]
  have at: "awaitedTick ctl todo done' delayMs L list (clock ! n) ?s1 = ?s2"
    using D by (simp add: awaitedTick_def settles_def)
  have rest: "runEvents ctl todo done' delayMs L list (awaited (drop (Suc n) clock)) ?s2 = ?s2"
    using D by (simp add: awaited_inactive)
  have "runEvents ctl todo done' delayMs L list (awaited clock) s
      = runEvents ctl todo done' delayMs L list (awaited ((clock ! n) # drop (Suc n) clock)) ?s1"
    using runEvents_append[of ctl todo done' delayMs L list "awaited ?c1"
        "awaited ((clock ! n) # drop (Suc n) clock)" s]
      awaited_append[of ?c1 "(clock ! n) # drop (Suc n) clock"] split by simp
  then have e': "runEvents ctl todo done' delayMs L list (awaited clock) s = ?s2"
    using rest at by (simp add: awaited_Cons)
  have range: "[currentIndex s .. currentIndex s + int (length ?c1) - 1] = [currentIndex s .. L]"
    using l1 n k by simp
  show ?thesis unfolding e' using D I range by simp
qed

text \<open>
  Claim C10, as the code has it. Let the accessor report a position \<open>p > 0\<close> and let \<open>L\<close> be
  the bound after the cap. The loop starts at \<open>p\<close> and its bound is \<open>L - p\<close>. If
  \<open>p > L - p\<close>, the item callback is never called, whatever the events of the run, and if
  the callback that persists the index returns normally, the first firing of the timer calls
  it with 0, if it is set, and then the completion callback, and these are all the calls of
  the run. If \<open>p \<le> L - p\<close>, let the failure callback return normally and let the run be
  awaited, with enough firings: then the item callback has been called exactly for
  \<open>p, ..., L - p\<close> in this order, the timer is cleared and no promise is in flight, and if
  the persisting callback returns normally, the completion callback was called once, after
  the persisting callback with 0. In every run the state of the callbacks is the one
  obtained by running the recorded calls one after the other.
\<close>

theorem resumed_loop_bound:
  fixes ctl :: "('a, 'w, 'e) LoopController"
  assumes acc: "getCurrentStepValue ctl = Some g" and pos: "0 < g w0"
  shows "startIndexOf ctl i w0 = g w0
    \<and> adjustedLimitOf ctl limit w0 = cappedLimit ctl limit - g w0
    \<and> (quietFailure ctl \<and> g w0 \<le> cappedLimit ctl limit - g w0
          \<and> nat (cappedLimit ctl limit - g w0 + 1 - g w0) < length clock \<longrightarrow>
         todoIndices (loopCalls (loopDelay ctl fs limit todo done' delayMs i list (awaited clock) w0))
           = [g w0 .. cappedLimit ctl limit - g w0]
         \<and> \<not> intervalActive (loopDelay ctl fs limit todo done' delayMs i list (awaited clock) w0)
         \<and> inFlight (loopDelay ctl fs limit todo done' delayMs i list (awaited clock) w0) = []
         \<and> (quietSetLog ctl \<longrightarrow>
              count_list (loopCalls (loopDelay ctl fs limit todo done' delayMs i list (awaited clock) w0))
                DoneCall = 1
            \<and> (\<exists>before. loopCalls (loopDelay ctl fs limit todo done' delayMs i list (awaited clock) w0)
                  = before @ present (setLogIndex ctl) (SetLogCall 0) @ [DoneCall])))
    \<and> (cappedLimit ctl limit - g w0 < g w0 \<longrightarrow>
         todoIndices (loopCalls (loopDelay ctl fs limit todo done' delayMs i list events w0)) = []
         \<and> (quietSetLog ctl \<longrightarrow>
              loopCalls (loopDelay ctl fs limit todo done' delayMs i list (TimerFires # events) w0)
                = present (setLogIndex ctl) (SetLogCall 0) @ [DoneCall]
            \<and> loopCalls (loopDelay ctl fs limit todo done' delayMs i list [TimerFires] w0)
                = present (setLogIndex ctl) (SetLogCall 0) @ [DoneCall]
            \<and> world (loopDelay ctl fs limit todo done' delayMs i list (TimerFires # events) w0)
                = snd (done' list (effectOf (map_option (\<lambda>f. f 0) (setLogIndex ctl)) w0))))
    \<and> world (loopDelay ctl fs limit todo done' delayMs i list events w0)
        = replay ctl todo done' list
            (loopCalls (loopDelay ctl fs limit todo done' delayMs i list events w0)) w0"
proof -
  let ?p = "g w0" and ?L = "cappedLimit ctl limit - g w0"
  let ?s0 = "loopStart ctl fs limit delayMs i w0 :: ('a, 'w, 'e) loop_state"
  have st: "startIndexOf ctl i w0 = ?p" using acc pos by (simp add: startIndexOf_def)
  have L: "adjustedLimitOf ctl limit w0 = ?L"
    using acc pos by (simp add: adjustedLimitOf_def cappedLimit_def Let_def)
  have s0: "currentIndex ?s0 = ?p" "intervalActive ?s0" "loopCalls ?s0 = []" "inFlight ?s0 = []"
      "world ?s0 = w0"
    by (simp_all add: loopStart_def st)
  have e: "loopDelay ctl fs limit todo done' delayMs i list c w0
      = runEvents ctl todo done' delayMs ?L list c ?s0" for c
    by (simp add: loopDelay_def L)
  have 1: "todoIndices (loopCalls (loopDelay ctl fs limit todo done' delayMs i list (awaited clock) w0))
           = [?p .. ?L]
         \<and> \<not> intervalActive (loopDelay ctl fs limit todo done' delayMs i list (awaited clock) w0)
         \<and> inFlight (loopDelay ctl fs limit todo done' delayMs i list (awaited clock) w0) = []
         \<and> (quietSetLog ctl \<longrightarrow>
              count_list (loopCalls (loopDelay ctl fs limit todo done' delayMs i list (awaited clock) w0))
                DoneCall = 1
            \<and> (\<exists>before. loopCalls (loopDelay ctl fs limit todo done' delayMs i list (awaited clock) w0)
                  = before @ present (setLogIndex ctl) (SetLogCall 0) @ [DoneCall]))"
    if qf: "quietFailure ctl" and le: "?p \<le> ?L" and len: "nat (?L + 1 - ?p) < length clock"
  proof -
    have k: "currentIndex ?s0 \<le> ?L + 1" using s0 le by simp
    have n: "nat (?L + 1 - ?p) = nat (?L + 1 - currentIndex ?s0)" using s0 by simp
    note I = awaited_items_to_bound[OF qf s0(2) s0(4) k n len, of todo done' delayMs list]
    have d: "count_list (loopCalls (runEvents ctl todo done' delayMs ?L list (awaited clock) ?s0))
                DoneCall = 1
            \<and> (\<exists>before. loopCalls (runEvents ctl todo done' delayMs ?L list (awaited clock) ?s0)
                  = before @ present (setLogIndex ctl) (SetLogCall 0) @ [DoneCall])"
      if qs: "quietSetLog ctl"
    proof -
      note C = awaited_complete[OF qf qs s0(2) s0(4) k n len, of todo done' delayMs list]
      have B: "\<exists>before. loopCalls (runEvents ctl todo done' delayMs ?L list (awaited clock) ?s0)
                = before @ present (setLogIndex ctl) (SetLogCall 0) @ [DoneCall]"
        using C[THEN conjunct2, THEN conjunct2, THEN conjunct2, THEN conjunct2, THEN conjunct2,
            THEN conjunct1] by blast
      show ?thesis
        using C[THEN conjunct2, THEN conjunct2, THEN conjunct2, THEN conjunct2, THEN conjunct1] s0 B
        by simp
    qed
    show ?thesis unfolding e using I s0 d by simp
  qed
  have 2: "todoIndices (loopCalls (loopDelay ctl fs limit todo done' delayMs i list events w0)) = []"
    if gt: "?L < ?p"
  proof -
    have g: "?L < currentIndex ?s0" using s0 gt by simp
    show ?thesis unfolding e
      using runEvents_past_bound[OF g s0(4), of ctl todo done' delayMs list events] s0 by simp
  qed
  have 3: "loopCalls (loopDelay ctl fs limit todo done' delayMs i list (TimerFires # events) w0)
                = present (setLogIndex ctl) (SetLogCall 0) @ [DoneCall]
            \<and> loopCalls (loopDelay ctl fs limit todo done' delayMs i list [TimerFires] w0)
                = present (setLogIndex ctl) (SetLogCall 0) @ [DoneCall]
            \<and> world (loopDelay ctl fs limit todo done' delayMs i list (TimerFires # events) w0)
                = snd (done' list (effectOf (map_option (\<lambda>f. f 0) (setLogIndex ctl)) w0))"
    if gt: "?L < ?p" and qs: "quietSetLog ctl"
  proof -
    have g: "?L < currentIndex ?s0" using s0 gt by simp
    note D = timerFires_done[OF s0(2) g qs s0(4), of todo done' list]
    have r: "runEvents ctl todo done' delayMs ?L list (TimerFires # evs) ?s0
        = timerFires ctl todo done' ?L list ?s0" for evs
      using D by (simp add: timerStep_def runEvents_inactive)
    have lc: "loopCalls (timerFires ctl todo done' ?L list ?s0)
        = present (setLogIndex ctl) (SetLogCall 0) @ [DoneCall]"
      using D s0 by simp
    have w: "world (timerFires ctl todo done' ?L list ?s0)
        = snd (done' list (effectOf (map_option (\<lambda>f. f 0) (setLogIndex ctl)) w0))"
      using D s0 by simp
    show ?thesis unfolding e r lc w by simp
  qed
  note 4 = loopDelay_replay[of ctl fs limit todo done' delayMs i list events w0]
  show ?thesis using st L 1 2 3 4 by blast
qed

lemma plainController_fields:
  "\<not> ctlIsProduction plainController" "ctlMaxItems plainController = 10"
  "getCurrentStepValue plainController = None" "onProgress plainController = None"
  "onFailure plainController = Some (\<lambda>i e it w. (None, w @ [100 + nat i]))"
  "setLogIndex plainController = Some (\<lambda>i w. (None, w @ [200 + nat i]))"
  by (simp_all add: plainController_def newLoopController_def DEFAULT_MAX_ITEMS_def)

lemma resumedController_fields:
  "\<not> ctlIsProduction (resumedController p)" "ctlMaxItems (resumedController p) = 10"
  "getCurrentStepValue (resumedController p) = Some (\<lambda>w. p)" "onProgress (resumedController p) = None"
  "onFailure (resumedController p) = None"
  "setLogIndex (resumedController p) = Some (\<lambda>i w. (None, w @ [200 + nat i]))"
  by (simp_all add: resumedController_def newLoopController_def DEFAULT_MAX_ITEMS_def)

lemma cappedController_fields:
  "\<not> ctlIsProduction cappedController" "ctlMaxItems cappedController = 3"
  "getCurrentStepValue cappedController = None" "onProgress cappedController = None"
  "onFailure cappedController = None" "setLogIndex cappedController = None"
  by (simp_all add: cappedController_def newLoopController_def)

lemma throwingController_fields:
  "\<not> ctlIsProduction throwingController" "ctlMaxItems throwingController = 10"
  "getCurrentStepValue throwingController = None" "onProgress throwingController = None"
  "onFailure throwingController = None"
  "setLogIndex throwingController = Some (\<lambda>i w. (Some ''disk full'', w))"
  by (simp_all add: throwingController_def newLoopController_def DEFAULT_MAX_ITEMS_def)

lemmas loop_eval = loopDelay_def loopStart_def adjustedLimitOf_def startIndexOf_def
  timerStep_def timerFires_def settles_def afterItem_def andThen_def invoke_def invokeIfSet_def
  failAt2_def noteDone_def itemAt_def Let_def

lemma resumedThrowing_fields:
  "\<not> ctlIsProduction (resumedThrowing p)" "ctlMaxItems (resumedThrowing p) = 10"
  "getCurrentStepValue (resumedThrowing p) = Some (\<lambda>w. p)" "onProgress (resumedThrowing p) = None"
  "onFailure (resumedThrowing p) = Some (\<lambda>i e it w. (Some ''handler failed'', w))"
  "setLogIndex (resumedThrowing p) = Some (\<lambda>i w. (Some ''disk full'', w))"
  by (simp_all add: resumedThrowing_def newLoopController_def DEFAULT_MAX_ITEMS_def)

lemma plain_awaited_calls:
  "loopCalls (loopDelay plainController [] 5 failAt2 noteDone 1000 0 [10, 11, 12] (awaited nineTicks) [])
     = [TodoCall 0, SetLogCall 0, TodoCall 1, SetLogCall 1, TodoCall 2, FailureCall 2 ''boom'' (Some 12),
        TodoCall 3, SetLogCall 3, TodoCall 4, SetLogCall 4, TodoCall 5, SetLogCall 5,
        SetLogCall 0, DoneCall]"
  by (simp add: loop_eval plainController_fields awaited_def nineTicks_def)

theorem loop_with_one_failure_witness:
  "(ctlIsProduction plainController \<or> 5 \<le> ctlMaxItems plainController)
   \<and> noResume plainController []
   \<and> (\<forall>i l w. (fst (failAt2 i l w) \<noteq> None) = (i = 2))
   \<and> quietSetLog plainController \<and> quietProgress plainController \<and> quietFailure plainController
   \<and> 7 \<le> length nineTicks
   \<and> todoIndices (loopCalls
         (loopDelay plainController [] 5 failAt2 noteDone 1000 0 [10, 11, 12] (awaited nineTicks) []))
       = [0, 1, 2, 3, 4, 5]
   \<and> failures (loopDelay plainController [] 5 failAt2 noteDone 1000 0 [10, 11, 12] (awaited nineTicks) [])
       = [\<lparr>failureIndex = 2, failureError = ''boom'', failureItem = Some 12, failureTimestamp = 3\<rparr>]
   \<and> failureCalls (loopCalls
         (loopDelay plainController [] 5 failAt2 noteDone 1000 0 [10, 11, 12] (awaited nineTicks) []))
       = [(2, ''boom'', Some 12)]
   \<and> \<not> intervalActive
         (loopDelay plainController [] 5 failAt2 noteDone 1000 0 [10, 11, 12] (awaited nineTicks) [])
   \<and> inFlight (loopDelay plainController [] 5 failAt2 noteDone 1000 0 [10, 11, 12] (awaited nineTicks) [])
       = []
   \<and> count_list (loopCalls
         (loopDelay plainController [] 5 failAt2 noteDone 1000 0 [10, 11, 12] (awaited nineTicks) []))
        DoneCall = 1
   \<and> world (loopDelay plainController [] 5 failAt2 noteDone 1000 0 [10, 11, 12] (awaited nineTicks) [])
       = [0, 200, 1, 201, 102, 3, 203, 4, 204, 5, 205, 200, 999]"
proof -
  let ?r = "loopDelay plainController [] 5 failAt2 noteDone 1000 0 [10, 11, 12] (awaited nineTicks) []"
  have u: "ctlIsProduction plainController \<or> 5 \<le> ctlMaxItems plainController"
    by (simp add: plainController_fields)
  have nr: "noResume plainController []" by (simp add: noResume_def plainController_fields)
  have f2: "\<forall>i l w. (fst (failAt2 i l w) \<noteq> None) = (i = 2)" by (simp add: failAt2_def)
  have qs: "quietSetLog plainController" by (simp add: quietSetLog_def plainController_fields)
  have qp: "quietProgress plainController" by (simp add: quietProgress_def plainController_fields)
  have qf: "quietFailure plainController" by (simp add: quietFailure_def plainController_fields)
  have t: "7 \<le> length nineTicks" by (simp add: nineTicks_def)
  note th = loop_with_one_failure[OF u nr f2 qs qp qf t, where done' = noteDone and delayMs = 1000
      and list = "[10, 11, 12]"]
  have it: "itemAt [10, 11, 12 :: nat] 2 = Some 12" by (simp add: itemAt_def)
  have ck: "nineTicks ! 2 = 3" by (simp add: nineTicks_def)
  have pf: "present (onFailure plainController) (2 :: int, e, Some (12 :: nat)) = [(2, e, Some 12)]"
    for e :: string
    by (simp add: present_def plainController_fields)
  have c1: "todoIndices (loopCalls ?r) = [0, 1, 2, 3, 4, 5]"
    using th[THEN conjunct1] .
  have c2: "failures ?r
         = [\<lparr>failureIndex = 2, failureError = ''boom'', failureItem = Some 12, failureTimestamp = 3\<rparr>]
       \<and> failureCalls (loopCalls ?r) = [(2, ''boom'', Some 12)]"
  proof -
    from th[THEN conjunct2, THEN conjunct1] obtain e w where
      w: "fst (failAt2 2 [10, 11, 12] w) = Some e"
      and f: "failures ?r
         = [\<lparr>failureIndex = 2, failureError = e, failureItem = Some 12, failureTimestamp = 3\<rparr>]"
      and c: "failureCalls (loopCalls ?r) = [(2, e, Some 12)]"
      unfolding it ck pf by blast
    from w have "e = ''boom''" by (simp add: failAt2_def)
    with f c show ?thesis by simp
  qed
  have c3: "\<not> intervalActive ?r"
    using th[THEN conjunct2, THEN conjunct2, THEN conjunct1] .
  have c4: "inFlight ?r = []"
    using th[THEN conjunct2, THEN conjunct2, THEN conjunct2, THEN conjunct1] .
  have c5: "count_list (loopCalls ?r) DoneCall = 1"
    using th[THEN conjunct2, THEN conjunct2, THEN conjunct2, THEN conjunct2, THEN conjunct1] .
  have c6: "world ?r = replay plainController failAt2 noteDone [10, 11, 12] (loopCalls ?r) []"
    using th[THEN conjunct2, THEN conjunct2, THEN conjunct2, THEN conjunct2, THEN conjunct2,
        THEN conjunct2] .
  have c7: "world ?r = [0, 200, 1, 201, 102, 3, 203, 4, 204, 5, 205, 200, 999]"
    unfolding c6 plain_awaited_calls
    by (simp add: replay_def effectOf_def plainController_fields failAt2_def noteDone_def)
  show ?thesis
    using u nr f2 qs qp qf t c1 c2[THEN conjunct1] c2[THEN conjunct2] c3 c4 c5 c7
    by (intro conjI) assumption+
qed

text \<open>
  The claim as stated fails. When the item callback takes three and a half delays, the timer
  fires four times before the first promise settles: index 0 is attempted four times, the
  failure of the call for index 2 is filed under index 5, the index that is current when
  its promise settles, and the completion callback is called while three promises are in
  flight. A controller with the maximum 3 that is not in production stops after index 3.
  And where the callback that persists the index throws, every item is filed as a failure
  and the completion callback is never called.
\<close>

theorem loop_with_one_failure_counterexample:
  "todoIndices (loopCalls
       (loopDelay plainController [] 5 failAt2 noteDone 1000 0 [10, 11, 12] slowItems []))
     = [0, 0, 0, 0, 1, 2, 3, 4, 5]
   \<and> failures (loopDelay plainController [] 5 failAt2 noteDone 1000 0 [10, 11, 12] slowItems [])
     = [\<lparr>failureIndex = 5, failureError = ''boom'', failureItem = None, failureTimestamp = 95\<rparr>]
   \<and> count_list (loopCalls
       (loopDelay plainController [] 5 failAt2 noteDone 1000 0 [10, 11, 12] slowItems [])) DoneCall = 1
   \<and> inFlight (loopDelay plainController [] 5 failAt2 noteDone 1000 0 [10, 11, 12] slowItems [])
     = [None, None, None]
   \<and> todoIndices (loopCalls
       (loopDelay cappedController [] 5 failAt2 noteDone 1000 0 [10, 11, 12] (awaited nineTicks) []))
     = [0, 1, 2, 3]
   \<and> map failureIndex
       (failures (loopDelay throwingController [] 5 failAt2 noteDone 1000 0 [10, 11, 12]
          (awaited nineTicks) []))
     = [0, 1, 2, 3, 4, 5]
   \<and> count_list (loopCalls
       (loopDelay throwingController [] 5 failAt2 noteDone 1000 0 [10, 11, 12] (awaited nineTicks) []))
       DoneCall = 0"
proof -
  have 1: "loopDelay plainController [] 5 failAt2 noteDone 1000 0 [10, 11, 12] slowItems []
     = \<lparr>currentIndex = 6, remainingTime = 2000,
        failures = [\<lparr>failureIndex = 5, failureError = ''boom'', failureItem = None,
                     failureTimestamp = 95\<rparr>],
        intervalActive = False,
        world = [0, 0, 0, 0, 200, 1, 201, 202, 3, 203, 4, 204, 5, 105, 200, 999],
        loopCalls = [TodoCall 0, TodoCall 0, TodoCall 0, TodoCall 0, SetLogCall 0,
                     TodoCall 1, SetLogCall 1, TodoCall 2, SetLogCall 2, TodoCall 3, SetLogCall 3,
                     TodoCall 4, SetLogCall 4, TodoCall 5, FailureCall 5 ''boom'' None,
                     SetLogCall 0, DoneCall],
        inFlight = [None, None, None]\<rparr>"
    by (simp add: loop_eval plainController_fields slowItems_def)
  have 2: "todoIndices (loopCalls
       (loopDelay cappedController [] 5 failAt2 noteDone 1000 0 [10, 11, 12] (awaited nineTicks) []))
     = [0, 1, 2, 3]"
    by (simp add: loop_eval cappedController_fields awaited_def nineTicks_def)
  have 3: "map failureIndex
       (failures (loopDelay throwingController [] 5 failAt2 noteDone 1000 0 [10, 11, 12]
          (awaited nineTicks) []))
     = [0, 1, 2, 3, 4, 5]
   \<and> count_list (loopCalls
       (loopDelay throwingController [] 5 failAt2 noteDone 1000 0 [10, 11, 12] (awaited nineTicks) []))
       DoneCall = 0"
    by (simp add: loop_eval throwingController_fields awaited_def nineTicks_def)
  show ?thesis unfolding 1 using 2 3 by simp
qed

theorem resumed_loop_bound_witness:
  "getCurrentStepValue (resumedController 2) = Some (\<lambda>w. 2) \<and> (0 :: int) < 2
   \<and> quietFailure (resumedController 2) \<and> quietSetLog (resumedController 2)
   \<and> cappedLimit (resumedController 2) 5 = 5
   \<and> (2 :: int) \<le> 5 - 2 \<and> nat (5 - 2 + 1 - 2) < length nineTicks
   \<and> todoIndices (loopCalls
         (loopDelay (resumedController 2) [] 5 failAt2 noteDone 1000 0 [] (awaited nineTicks) []))
       = [2, 3]
   \<and> count_list (loopCalls
         (loopDelay (resumedController 2) [] 5 failAt2 noteDone 1000 0 [] (awaited nineTicks) []))
        DoneCall = 1
   \<and> inFlight (loopDelay (resumedController 2) [] 5 failAt2 noteDone 1000 0 [] (awaited nineTicks) [])
       = []
   \<and> world (loopDelay (resumedController 2) [] 5 failAt2 noteDone 1000 0 [] (awaited nineTicks) [])
       = [3, 203, 200, 999]
   \<and> getCurrentStepValue (resumedController 4) = Some (\<lambda>w. 4) \<and> (0 :: int) < 4
   \<and> quietSetLog (resumedController 4)
   \<and> cappedLimit (resumedController 4) 5 = 5
   \<and> (5 :: int) - 4 < 4
   \<and> todoIndices (loopCalls
         (loopDelay (resumedController 4) [] 5 failAt2 noteDone 1000 0 [] (awaited nineTicks) []))
       = []
   \<and> loopCalls (loopDelay (resumedController 4) [] 5 failAt2 noteDone 1000 0 []
         (TimerFires # slowItems) [])
       = [SetLogCall 0, DoneCall]
   \<and> world (loopDelay (resumedController 4) [] 5 failAt2 noteDone 1000 0 []
         (TimerFires # slowItems) [])
       = [200, 999]"
proof -
  let ?r2 = "loopDelay (resumedController 2) [] 5 failAt2 noteDone 1000 0 [] (awaited nineTicks) []"
  have g2: "getCurrentStepValue (resumedController 2) = Some (\<lambda>w. 2)"
    and g4: "getCurrentStepValue (resumedController 4) = Some (\<lambda>w. 4)"
    by (simp_all add: resumedController_fields)
  have p2: "(0 :: int) < (\<lambda>w :: nat list. 2) []" and p4: "(0 :: int) < (\<lambda>w :: nat list. 4) []" by simp_all
  have qf2: "quietFailure (resumedController 2)"
    by (simp add: quietFailure_def resumedController_fields)
  have qs2: "quietSetLog (resumedController 2)" and qs4: "quietSetLog (resumedController 4)"
    by (simp_all add: quietSetLog_def resumedController_fields)
  have c2: "cappedLimit (resumedController 2) 5 = 5" and c4: "cappedLimit (resumedController 4) 5 = 5"
    by (simp_all add: cappedLimit_def resumedController_fields)
  have n: "nat (5 - 2 + 1 - 2) < length nineTicks" by (simp add: nineTicks_def)
  note t2 = resumed_loop_bound[OF g2 p2, where i = 0 and limit = 5 and clock = nineTicks
      and events = "awaited nineTicks"
      and fs = "[]" and todo = failAt2 and done' = noteDone and delayMs = 1000 and list = "[]"
      and ?w0.0 = "[]"]
  note t4 = resumed_loop_bound[OF g4 p4, where i = 0 and limit = 5 and clock = nineTicks
      and events = slowItems
      and fs = "[]" and todo = failAt2 and done' = noteDone and delayMs = 1000 and list = "[]"
      and ?w0.0 = "[]"]
  note t4a = resumed_loop_bound[OF g4 p4, where i = 0 and limit = 5 and clock = nineTicks
      and events = "awaited nineTicks"
      and fs = "[]" and todo = failAt2 and done' = noteDone and delayMs = 1000 and list = "[]"
      and ?w0.0 = "[]"]
  have r23: "[2 .. 3] = [2, 3 :: int]" by code_simp
  have i1: "(2 :: int) \<le> 5 - 2" and i2: "(5 :: int) - 4 < 4" and i3: "(0 :: int) < 2" and i4: "(0 :: int) < 4"
    by simp_all
  have part2: "todoIndices (loopCalls ?r2) = [2 .. 5 - 2]
      \<and> \<not> intervalActive ?r2 \<and> inFlight ?r2 = []
      \<and> (quietSetLog (resumedController 2) \<longrightarrow>
            count_list (loopCalls ?r2) DoneCall = 1
          \<and> (\<exists>before. loopCalls ?r2
                = before @ present (setLogIndex (resumedController 2)) (SetLogCall 0) @ [DoneCall]))"
    using t2[THEN conjunct2, THEN conjunct2, THEN conjunct1] qf2 n unfolding c2 by simp
  have a: "todoIndices (loopCalls ?r2) = [2, 3]" using part2 by (simp add: r23)
  have b: "count_list (loopCalls ?r2) DoneCall = 1" using part2 qs2 by blast
  have c: "inFlight ?r2 = []" using part2 by blast
  have w2: "world ?r2 = replay (resumedController 2) failAt2 noteDone [] (loopCalls ?r2) []"
    using t2[THEN conjunct2, THEN conjunct2, THEN conjunct2, THEN conjunct2] .
  have l2: "loopCalls ?r2 = [TodoCall 2, TodoCall 3, SetLogCall 3, SetLogCall 0, DoneCall]"
    by (simp add: loop_eval resumedController_fields awaited_def nineTicks_def)
  have d: "world ?r2 = [3, 203, 200, 999]"
    unfolding w2 l2
    by (simp add: replay_def effectOf_def resumedController_fields failAt2_def noteDone_def)
  have sl: "present (setLogIndex (resumedController 4)) (SetLogCall 0 :: (nat, string) loop_call)
      = [SetLogCall 0]"
    by (simp add: present_def resumedController_fields)
  have ef: "snd (noteDone [] (effectOf (map_option (\<lambda>f. f 0) (setLogIndex (resumedController 4))) []))
      = [200, 999]"
    by (simp add: effectOf_def resumedController_fields noteDone_def)
  have part4: "todoIndices (loopCalls
         (loopDelay (resumedController 4) [] 5 failAt2 noteDone 1000 0 [] (awaited nineTicks) [])) = []"
    using t4a[THEN conjunct2, THEN conjunct2, THEN conjunct2, THEN conjunct1] i2 unfolding c4 by simp
  have part4b: "loopCalls (loopDelay (resumedController 4) [] 5 failAt2 noteDone 1000 0 []
         (TimerFires # slowItems) []) = [SetLogCall 0, DoneCall]
      \<and> world (loopDelay (resumedController 4) [] 5 failAt2 noteDone 1000 0 []
         (TimerFires # slowItems) []) = [200, 999]"
    using t4[THEN conjunct2, THEN conjunct2, THEN conjunct2, THEN conjunct1] i2 qs4
    unfolding c4 sl ef by simp
  show ?thesis
    using g2 i3 qf2 qs2 c2 i1 n a b c d g4 i4 qs4 c4 i2 part4
      part4b[THEN conjunct1] part4b[THEN conjunct2]
    by (intro conjI) assumption+
qed

text \<open>
  The claim as stated fails. With the position 2 and the bound 5 the indices are 2 and 3;
  when the timer fires twice before the first promise settles, index 2 is attempted twice
  and index 3 never. Where the failure callback throws, \<^verbatim>\<open>currentIndex++\<close> is not reached
  and the loop attempts index 2 at every firing. And where the callback that persists the
  index throws, the first firing of a loop whose position is beyond its bound does not call
  the completion callback.
\<close>

theorem resumed_loop_bound_counterexample:
  "cappedLimit (resumedController 2) 5 - 2 = 3
   \<and> todoIndices (loopCalls
        (loopDelay (resumedController 2) [] 5 failAt2 noteDone 1000 0 [] twoAtOnce [])) = [2, 2]
   \<and> count_list (loopCalls
        (loopDelay (resumedController 2) [] 5 failAt2 noteDone 1000 0 [] twoAtOnce [])) DoneCall = 1
   \<and> todoIndices (loopCalls
        (loopDelay (resumedThrowing 2) [] 5 failAt2 noteDone 1000 0 [] (awaited nineTicks) []))
      = [2, 2, 2, 2, 2, 2, 2, 2, 2]
   \<and> loopCalls (loopDelay (resumedThrowing 4) [] 5 failAt2 noteDone 1000 0 [] [TimerFires] [])
      = [SetLogCall 0]"
proof -
  have 0: "cappedLimit (resumedController 2) 5 - 2 = 3"
    by (simp add: cappedLimit_def resumedController_fields)
  have 1: "loopCalls (loopDelay (resumedController 2) [] 5 failAt2 noteDone 1000 0 [] twoAtOnce [])
      = [TodoCall 2, TodoCall 2, SetLogCall 0, DoneCall]"
    by (simp add: loop_eval resumedController_fields twoAtOnce_def)
  have 2: "todoIndices (loopCalls
        (loopDelay (resumedThrowing 2) [] 5 failAt2 noteDone 1000 0 [] (awaited nineTicks) []))
      = [2, 2, 2, 2, 2, 2, 2, 2, 2]"
    by (simp add: loop_eval resumedThrowing_fields awaited_def nineTicks_def)
  have 3: "loopCalls (loopDelay (resumedThrowing 4) [] 5 failAt2 noteDone 1000 0 [] [TimerFires] [])
      = [SetLogCall 0]"
    by (simp add: loop_eval resumedThrowing_fields)
  show ?thesis unfolding 1 using 0 2 3 by simp
qed

end
